theory Spec2Isabelle
  imports Main
begin

section \<open>Data model of gojtp (src/jtp.go)\<close>

text \<open>
  The input buffer (\<^verbatim>\<open>[]byte\<close>) is a list of \<^typ>\<open>char\<close>, the 8-bit characters of HOL;
  \<open>bv\<close> reads a byte as a number for the order comparisons of the source.
  A cursor is a \<^typ>\<open>nat\<close>; the counters and the configured maxima are Go \<^verbatim>\<open>int\<close>s,
  modelled as \<^typ>\<open>int\<close> (they are bounded by the length of the buffer, far from 64-bit
  overflow). A Go \<^verbatim>\<open>error\<close> is its message, \<open>None\<close> standing for \<^verbatim>\<open>nil\<close>.
\<close>

type_synonym error = "string option"

definition bv :: "char \<Rightarrow> nat" where
  "bv c = of_char c"

record Verify =
  MaxArrayElementCount :: int
  arrayEntryCountEnabled :: bool
  JSONContainerDepth :: int
  jsonContainerDepthEnabled :: bool
  ObjectEntryCount :: int
  objectEntryCountEnabled :: bool
  ObjectKeyLength :: int
  objectKeyLengthEnabled :: bool
  StringValueLen :: int
  stringLenEnabled :: bool

text \<open>The zero value \<^verbatim>\<open>Verify{}\<close>: every check disabled.\<close>

definition Verify0 :: Verify where
  "Verify0 = \<lparr> MaxArrayElementCount = 0, arrayEntryCountEnabled = False,
               JSONContainerDepth = 0, jsonContainerDepthEnabled = False,
               ObjectEntryCount = 0, objectEntryCountEnabled = False,
               ObjectKeyLength = 0, objectKeyLengthEnabled = False,
               StringValueLen = 0, stringLenEnabled = False \<rparr>"

definition objectKeyValueLength :: string where
  "objectKeyValueLength = ''maxKeyLengthReached''"

definition stringValueLength :: string where
  "stringValueLength = ''maxStringValueLengthReached''"

definition ErrInvalidJSON :: string where
  "ErrInvalidJSON = ''jtp.MalformedJSON''"

text \<open>The four bytes every scanner skips: space, tab, newline, carriage return.\<close>

definition is_ws :: "char \<Rightarrow> bool" where
  "is_ws c = (c = CHR '' '' \<or> c = CHR 0x09 \<or> c = CHR 0x0A \<or> c = CHR 0x0D)"

definition is_digit :: "char \<Rightarrow> bool" where
  "is_digit c = (bv CHR ''0'' \<le> bv c \<and> bv c \<le> bv CHR ''9'')"

subsection \<open>Formatting with \<^verbatim>\<open>%d\<close>\<close>

fun digits_of :: "nat \<Rightarrow> string" where
  "digits_of n =
     (if n < 10 then [''0123456789'' ! n]
      else digits_of (n div 10) @ [''0123456789'' ! (n mod 10)])"

declare digits_of.simps [simp del]

definition fmt_d :: "int \<Rightarrow> string" where
  "fmt_d k = (if k < 0 then CHR ''-'' # digits_of (nat (- k)) else digits_of (nat k))"

text \<open>\<^verbatim>\<open>fmt.Errorf("jtp.%s.Max-[%d]-Allowed.Found-[%d]", label, max, found)\<close>\<close>

definition limit_error :: "string \<Rightarrow> int \<Rightarrow> int \<Rightarrow> string" where
  "limit_error label mx found =
     ''jtp.'' @ label @ ''.Max-['' @ fmt_d mx @ '']-Allowed.Found-['' @ fmt_d found @ '']''"

subsection \<open>\<^verbatim>\<open>utf8.RuneCount\<close> of the Go standard library\<close>

text \<open>
  \<^verbatim>\<open>utf8.RuneCount\<close> walks the buffer and counts one rune per well-formed encoding and one
  per byte that starts none. \<open>utf8_first\<close> is its table \<^verbatim>\<open>first\<close> together with
  \<^verbatim>\<open>acceptRanges\<close>: for a leading byte, the size of the encoding and the range the second
  byte must lie in; \<open>None\<close> is the entry \<^verbatim>\<open>xx\<close> (and the ASCII entry, handled before).
  The loop state (\<^verbatim>\<open>i\<close>, \<^verbatim>\<open>n\<close>) is the remaining suffix \<^verbatim>\<open>p[i:]\<close> and the count.
\<close>

definition utf8_first :: "nat \<Rightarrow> (nat \<times> nat \<times> nat) option" where
  "utf8_first c =
     (if 0xC2 \<le> c \<and> c \<le> 0xDF then Some (2, 0x80, 0xBF)
      else if c = 0xE0 then Some (3, 0xA0, 0xBF)
      else if 0xE1 \<le> c \<and> c \<le> 0xEC then Some (3, 0x80, 0xBF)
      else if c = 0xED then Some (3, 0x80, 0x9F)
      else if 0xEE \<le> c \<and> c \<le> 0xEF then Some (3, 0x80, 0xBF)
      else if c = 0xF0 then Some (4, 0x90, 0xBF)
      else if 0xF1 \<le> c \<and> c \<le> 0xF3 then Some (4, 0x80, 0xBF)
      else if c = 0xF4 then Some (4, 0x80, 0x8F)
      else None)"

definition rune_size :: "char list \<Rightarrow> nat" where
  "rune_size p =
     (let c = bv (p ! 0) in
      if c < 0x80 then 1
      else case utf8_first c of
        None \<Rightarrow> 1
      | Some (sz, lo, hi) \<Rightarrow>
          if sz > length p then 1
          else if bv (p ! 1) < lo \<or> hi < bv (p ! 1) then 1
          else if sz = 2 then 2
          else if bv (p ! 2) < 0x80 \<or> 0xBF < bv (p ! 2) then 1
          else if sz = 3 then 3
          else if bv (p ! 3) < 0x80 \<or> 0xBF < bv (p ! 3) then 1
          else 4)"

lemma rune_size_pos: "0 < rune_size p"
  by (simp add: rune_size_def Let_def split: option.split prod.split)

function RuneCount :: "char list \<Rightarrow> int" where
  "RuneCount p = (if p = [] then 0 else 1 + RuneCount (drop (rune_size p) p))"
  by pat_completeness auto
termination
  by (relation "measure length") (use rune_size_pos in \<open>auto simp: Suc_le_eq\<close>)

declare RuneCount.simps [simp del]

section \<open>Scanners\<close>

text \<open>
  \<^verbatim>\<open>validateStringLength\<close>: the rune count of \<^verbatim>\<open>data[startIndex:endIndex]\<close>, less the two
  quotes, against the maximum.
\<close>

definition validateStringLength ::
  "char list \<Rightarrow> nat \<Rightarrow> nat \<Rightarrow> bool \<Rightarrow> int \<Rightarrow> string \<Rightarrow> error" where
  "validateStringLength data startIndex endIndex enabled maxAllowed strType =
     (let str = take (endIndex - startIndex) (drop startIndex data);
          l = RuneCount str
      in if enabled \<and> l - 2 > maxAllowed
         then Some (limit_error strType maxAllowed (l - 2))
         else None)"

definition is_hex :: "char \<Rightarrow> bool" where
  "is_hex c = ((bv CHR ''0'' \<le> bv c \<and> bv c \<le> bv CHR ''9'') \<or>
               (bv CHR ''a'' \<le> bv c \<and> bv c \<le> bv CHR ''f'') \<or>
               (bv CHR ''A'' \<le> bv c \<and> bv c \<le> bv CHR ''F''))"

text \<open>The four hexadecimal digits after \<^verbatim>\<open>\u\<close>: the loop over \<^verbatim>\<open>j\<close>.\<close>

function hex4 :: "char list \<Rightarrow> nat \<Rightarrow> nat \<Rightarrow> nat \<times> bool" where
  "hex4 data i j =
     (if j < 4 then
        (let i = i + 1 in
         if i \<ge> length data then (i, False)
         else if \<not> is_hex (data ! i) then (i, False)
         else hex4 data i (j + 1))
      else (i, True))"
  by pat_completeness auto
termination
  by (relation "measure (\<lambda>(data, i, j). 4 - j)") auto

declare hex4.simps [simp del]

lemma hex4_ge: "i \<le> fst (hex4 data i j)"
proof (induction data i j rule: hex4.induct)
  case (1 data i j)
  then show ?case
    by (subst hex4.simps) (auto simp: Let_def dest: Suc_leD)
qed

function isValidateString :: "char list \<Rightarrow> nat \<Rightarrow> nat \<times> bool" where
  "isValidateString data i =
     (if i < length data then
        (if bv (data ! i) < bv CHR '' '' then (i, False)
         else if data ! i = CHR 0x5C then
           (let i = i + 1 in
            if i = length data then (i, False)
            else if data ! i \<in> {CHR 0x22, CHR 0x5C, CHR ''/'', CHR ''b'', CHR ''f'',
                                CHR ''n'', CHR ''r'', CHR ''t''}
            then isValidateString data (i + 1)
            else if data ! i = CHR ''u'' then
              (case hex4 data i 0 of
                 (i, False) \<Rightarrow> (i, False)
               | (i, True) \<Rightarrow> isValidateString data (i + 1))
            else (i, False))
         else if data ! i = CHR 0x22 then (i + 1, True)
         else isValidateString data (i + 1))
      else (i, False))"
  by pat_completeness auto
termination
  apply (relation "measure (\<lambda>(data, i). length data - i)")
      apply auto
  subgoal for data i xa
    using hex4_ge [of "Suc i" data 0] by (cases "hex4 data (Suc i) 0") auto
  done

declare isValidateString.simps [simp del]

subsection \<open>Literals and numbers\<close>

definition isValidTrue :: "char list \<Rightarrow> nat \<Rightarrow> nat \<times> bool" where
  "isValidTrue data i =
     (if i + 3 \<le> length data \<and> data ! i = CHR ''r'' \<and> data ! (i + 1) = CHR ''u'' \<and>
         data ! (i + 2) = CHR ''e''
      then (i + 3, True) else (i, False))"

definition isValidFalse :: "char list \<Rightarrow> nat \<Rightarrow> nat \<times> bool" where
  "isValidFalse data i =
     (if i + 4 \<le> length data \<and> data ! i = CHR ''a'' \<and> data ! (i + 1) = CHR ''l'' \<and>
         data ! (i + 2) = CHR ''s'' \<and> data ! (i + 3) = CHR ''e''
      then (i + 4, True) else (i, False))"

definition isValidNull :: "char list \<Rightarrow> nat \<Rightarrow> nat \<times> bool" where
  "isValidNull data i =
     (if i + 3 \<le> length data \<and> data ! i = CHR ''u'' \<and> data ! (i + 1) = CHR ''l'' \<and>
         data ! (i + 2) = CHR ''l''
      then (i + 3, True) else (i, False))"

text \<open>The loop \<^verbatim>\<open>for ; i < len(data); i++ { if digit { continue }; break }\<close>.\<close>

function skip_digits :: "char list \<Rightarrow> nat \<Rightarrow> nat" where
  "skip_digits data i =
     (if i < length data \<and> is_digit (data ! i) then skip_digits data (i + 1) else i)"
  by pat_completeness auto
termination
  by (relation "measure (\<lambda>(data, i). length data - i)") auto

declare skip_digits.simps [simp del]

text \<open>
  \<^verbatim>\<open>isValidNumber\<close> is called with the cursor one past the first byte of the number
  (\<open>0 < i \<le> length data\<close>) and steps back to it. Its three segments, each with its
  early returns, are the three definitions below, in the order of the source.
\<close>

definition isValidNumber_exp :: "char list \<Rightarrow> nat \<Rightarrow> nat \<times> bool" where
  "isValidNumber_exp data i =
     (if i = length data then (i, True)
      else if data ! i = CHR ''e'' \<or> data ! i = CHR ''E'' then
        (let i = i + 1 in
         if i = length data then (i, False)
         else
           (let i = (if data ! i = CHR ''+'' \<or> data ! i = CHR ''-'' then i + 1 else i) in
            if i = length data then (i, False)
            else if bv (data ! i) < bv CHR ''0'' \<or> bv (data ! i) > bv CHR ''9'' then (i, False)
            else (skip_digits data (i + 1), True)))
      else (i, True))"

definition isValidNumber_frac :: "char list \<Rightarrow> nat \<Rightarrow> nat \<times> bool" where
  "isValidNumber_frac data i =
     (if i = length data then (i, True)
      else if data ! i = CHR ''.'' then
        (let i = i + 1 in
         if i = length data then (i, False)
         else if bv (data ! i) < bv CHR ''0'' \<or> bv (data ! i) > bv CHR ''9'' then (i, False)
         else isValidNumber_exp data (skip_digits data (i + 1)))
      else isValidNumber_exp data i)"

definition isValidNumber :: "char list \<Rightarrow> nat \<Rightarrow> nat \<times> bool" where
  "isValidNumber data i0 =
     (let i = i0 - 1;
          i = (if data ! i = CHR ''-'' then i + 1 else i)
      in if i = length data then (i, False)
         else isValidNumber_frac data
                (if data ! i = CHR ''0'' then i + 1 else skip_digits data i))"

subsection \<open>Separators\<close>

function isValidComma :: "char list \<Rightarrow> nat \<Rightarrow> char \<Rightarrow> nat \<times> bool" where
  "isValidComma data i end =
     (if i < length data then
        (if is_ws (data ! i) then isValidComma data (i + 1) end
         else if data ! i = CHR '','' then (i, True)
         else if data ! i = end then (i, True)
         else (i, False))
      else (i, False))"
  by pat_completeness auto
termination
  by (relation "measure (\<lambda>(data, i, e). length data - i)") auto

declare isValidComma.simps [simp del]

function isValidColon :: "char list \<Rightarrow> nat \<Rightarrow> nat \<times> bool" where
  "isValidColon data i =
     (if i < length data then
        (if is_ws (data ! i) then isValidColon data (i + 1)
         else if data ! i = CHR '':'' then (i + 1, True)
         else (i, False))
      else (i, False))"
  by pat_completeness auto
termination
  by (relation "measure (\<lambda>(data, i). length data - i)") auto

declare isValidColon.simps [simp del]

section \<open>The recursive validators\<close>

text \<open>
  \<^verbatim>\<open>validany\<close>, \<^verbatim>\<open>isValidArray\<close> and \<^verbatim>\<open>isValidObject\<close> call each other, and the cursor a
  call returns is where its caller goes on. The first argument of each function below is
  fuel: every call and every loop iteration takes one unit, and running out is \<open>None\<close>.
  The counter behind \<^verbatim>\<open>depth *int\<close> is passed in and returned, so a result is
  \<open>(outi, ok, err, depth)\<close>. The maximum of a limit is compared as the source writes it.
\<close>

type_synonym res = "nat \<times> bool \<times> error \<times> int"

definition depth_error :: "Verify \<Rightarrow> int \<Rightarrow> string" where
  "depth_error verifier depth =
     limit_error ''maxContainerDepthReached'' (JSONContainerDepth verifier) depth"

function (sequential) validany :: "nat \<Rightarrow> char list \<Rightarrow> nat \<Rightarrow> int \<Rightarrow> Verify \<Rightarrow> res option"
  and validany_loop :: "nat \<Rightarrow> char list \<Rightarrow> nat \<Rightarrow> int \<Rightarrow> Verify \<Rightarrow> res option"
  and isValidArray :: "nat \<Rightarrow> char list \<Rightarrow> nat \<Rightarrow> int \<Rightarrow> Verify \<Rightarrow> res option"
  and isValidArray_loop :: "nat \<Rightarrow> char list \<Rightarrow> nat \<Rightarrow> int \<Rightarrow> Verify \<Rightarrow> error \<Rightarrow> res option"
  and isValidArray_elems ::
    "nat \<Rightarrow> char list \<Rightarrow> nat \<Rightarrow> int \<Rightarrow> Verify \<Rightarrow> error \<Rightarrow> int \<Rightarrow> res option"
  and isValidObject :: "nat \<Rightarrow> char list \<Rightarrow> nat \<Rightarrow> int \<Rightarrow> Verify \<Rightarrow> res option"
  and isValidObject_loop :: "nat \<Rightarrow> char list \<Rightarrow> nat \<Rightarrow> int \<Rightarrow> Verify \<Rightarrow> res option"
  and isValidObject_key ::
    "nat \<Rightarrow> char list \<Rightarrow> nat \<Rightarrow> int \<Rightarrow> Verify \<Rightarrow> error \<Rightarrow> int \<Rightarrow> res option"
  and isValidObject_next ::
    "nat \<Rightarrow> char list \<Rightarrow> nat \<Rightarrow> int \<Rightarrow> Verify \<Rightarrow> error \<Rightarrow> int \<Rightarrow> res option"
where
  "validany 0 data i depth verifier = None"
| "validany (Suc n) data i depth verifier =
     (if jsonContainerDepthEnabled verifier \<and> JSONContainerDepth verifier < depth
      then Some (i, False, Some (depth_error verifier depth), depth)
      else validany_loop n data i depth verifier)"

| "validany_loop 0 data i depth verifier = None"
| "validany_loop (Suc n) data i depth verifier =
     \<comment> \<open>\<^verbatim>\<open>for ; i < len(data); i++ { switch data[i] {...} }\<close>\<close>
     (if i < length data then
        (if is_ws (data ! i) then validany_loop n data (i + 1) depth verifier
         else if data ! i = CHR ''{'' then isValidObject n data (i + 1) (depth + 1) verifier
         else if data ! i = CHR ''['' then isValidArray n data (i + 1) (depth + 1) verifier
         else if data ! i = CHR 0x22 then
           (let (outi, ok) = isValidateString data (i + 1);
                err = validateStringLength data i outi (stringLenEnabled verifier)
                        (StringValueLen verifier) stringValueLength
            in Some (outi, ok, err, depth))
         else if data ! i = CHR ''-'' \<or> is_digit (data ! i) then
           (let (outi, ok) = isValidNumber data (i + 1) in Some (outi, ok, None, depth))
         else if data ! i = CHR ''t'' then
           (let (outi, ok) = isValidTrue data (i + 1) in Some (outi, ok, None, depth))
         else if data ! i = CHR ''f'' then
           \<comment> \<open>this case assigns \<^verbatim>\<open>outi, ok\<close> and has no \<^verbatim>\<open>return\<close>: the loop goes on at
               \<^verbatim>\<open>i + 1\<close>, and every later \<^verbatim>\<open>return\<close> sets both results anew\<close>
           (let (outi, ok) = isValidFalse data (i + 1)
            in validany_loop n data (i + 1) depth verifier)
         else if data ! i = CHR ''n'' then
           (let (outi, ok) = isValidNull data (i + 1) in Some (outi, ok, None, depth))
         else Some (i, False, None, depth))
      else Some (i, False, None, depth))"

| "isValidArray 0 data i depth verifier = None"
| "isValidArray (Suc n) data i depth verifier =
     (if jsonContainerDepthEnabled verifier \<and> JSONContainerDepth verifier < depth
      then Some (i, False, Some (depth_error verifier depth), depth)
      else isValidArray_loop n data i depth verifier None)"

| "isValidArray_loop 0 data i depth verifier err = None"
| "isValidArray_loop (Suc n) data i depth verifier err =
     \<comment> \<open>the outer \<^verbatim>\<open>for\<close>; \<^verbatim>\<open>child := 0\<close> at each iteration\<close>
     (if i < length data then
        (if is_ws (data ! i) then isValidArray_loop n data (i + 1) depth verifier err
         else if data ! i = CHR '']'' then Some (i + 1, True, err, depth - 1)
         else isValidArray_elems n data i depth verifier err 0)
      else Some (i, False, err, depth))"

| "isValidArray_elems 0 data i depth verifier err child = None"
| "isValidArray_elems (Suc n) data i depth verifier err child =
     \<comment> \<open>the inner \<^verbatim>\<open>for\<close> of the \<^verbatim>\<open>default\<close> case; when it runs off the buffer the
         \<^verbatim>\<open>switch\<close> ends and the outer loop goes on at \<^verbatim>\<open>i + 1\<close>\<close>
     (if i < length data then
        (case validany n data i depth verifier of
           None \<Rightarrow> None
         | Some (i, ok, err, depth) \<Rightarrow>
             if \<not> ok then Some (i, False, err, depth)
             else
               (let (i, ok) = isValidComma data i CHR '']'' in
                if \<not> ok then Some (i, False, err, depth)
                else
                  (let child = child + 1 in
                   if arrayEntryCountEnabled verifier \<and> child > MaxArrayElementCount verifier
                   then Some (i, False,
                          Some (limit_error ''maxArrayElementCountReached''
                                  (MaxArrayElementCount verifier) child), depth)
                   else if data ! i = CHR '']'' then Some (i + 1, True, err, depth - 1)
                   else isValidArray_elems n data (i + 1) depth verifier err child)))
      else isValidArray_loop n data (i + 1) depth verifier err)"

| "isValidObject 0 data i depth verifier = None"
| "isValidObject (Suc n) data i depth verifier =
     (if jsonContainerDepthEnabled verifier \<and> JSONContainerDepth verifier < depth
      then Some (i, False, Some (depth_error verifier depth), depth)
      else isValidObject_loop n data i depth verifier)"

| "isValidObject_loop 0 data i depth verifier = None"
| "isValidObject_loop (Suc n) data i depth verifier =
     (if i < length data then
        (if is_ws (data ! i) then isValidObject_loop n data (i + 1) depth verifier
         else if data ! i = CHR ''}'' then Some (i + 1, True, None, depth - 1)
         else if data ! i = CHR 0x22 then
           \<comment> \<open>\<^verbatim>\<open>entries := 0\<close>, then the label \<^verbatim>\<open>key\<close>\<close>
           isValidObject_key n data i depth verifier None 0
         else Some (i, False, None, depth))
      else Some (i, False, None, depth))"

| "isValidObject_key 0 data i depth verifier err entries = None"
| "isValidObject_key (Suc n) data i depth verifier err entries =
     \<comment> \<open>from the label \<^verbatim>\<open>key\<close>, with \<^verbatim>\<open>i\<close> at the opening quote of the key\<close>
     (let tempI = i;
          (i, ok) = isValidateString data (i + 1)
      in if \<not> ok then Some (i, False, err, depth)
         else
           (let entries = entries + 1 in
            if objectEntryCountEnabled verifier \<and> ObjectEntryCount verifier < entries
            then Some (i, False,
                   Some (limit_error ''maxObjectEntryCountReached''
                           (ObjectEntryCount verifier) entries), depth)
            else
              (let err = validateStringLength data tempI i (objectKeyLengthEnabled verifier)
                           (ObjectKeyLength verifier) objectKeyValueLength
               in if err \<noteq> None then Some (i, False, err, depth)
                  else
                    (let (i, ok) = isValidColon data i in
                     if \<not> ok then Some (i, False, err, depth)
                     else
                       (case validany n data i depth verifier of
                          None \<Rightarrow> None
                        | Some (i, ok, err, depth) \<Rightarrow>
                            if \<not> ok \<or> err \<noteq> None then Some (i, False, err, depth)
                            else
                              (let (i, ok) = isValidComma data i CHR ''}'' in
                               if \<not> ok then Some (i, False, err, depth)
                               else if data ! i = CHR ''}''
                               then Some (i + 1, True, err, depth - 1)
                               else isValidObject_next n data (i + 1) depth verifier err
                                      entries))))))"

| "isValidObject_next 0 data i depth verifier err entries = None"
| "isValidObject_next (Suc n) data i depth verifier err entries =
     \<comment> \<open>the loop after a comma: skip to the quote of the next key, then \<^verbatim>\<open>goto key\<close>\<close>
     (if i < length data then
        (if is_ws (data ! i) then isValidObject_next n data (i + 1) depth verifier err entries
         else if data ! i = CHR 0x22 then isValidObject_key n data i depth verifier err entries
         else Some (i, False, err, depth))
      else Some (i, False, err, depth))"

  by pat_completeness auto
termination
  by (relation "measure (case_sum (case_sum (case_sum fst fst) (case_sum fst fst))
                          (case_sum (case_sum fst fst) (case_sum fst (case_sum fst fst))))")
     simp_all

declare validany.simps [simp del] validany_loop.simps [simp del]
  isValidArray.simps [simp del] isValidArray_loop.simps [simp del]
  isValidArray_elems.simps [simp del] isValidObject.simps [simp del]
  isValidObject_loop.simps [simp del] isValidObject_key.simps [simp del]
  isValidObject_next.simps [simp del]

section \<open>The top level\<close>

text \<open>The loop of \<^verbatim>\<open>isValidJSON\<close> after the value: only whitespace may follow.\<close>

function isValidJSON_rest :: "char list \<Rightarrow> nat \<Rightarrow> error \<Rightarrow> int \<Rightarrow> res" where
  "isValidJSON_rest data i err depth =
     (if i < length data then
        (if is_ws (data ! i) then isValidJSON_rest data (i + 1) err depth
         else (i, False, err, depth))
      else (i, True, err, depth))"
  by pat_completeness auto
termination
  by (relation "measure (\<lambda>(data, i, e, d). length data - i)") auto

declare isValidJSON_rest.simps [simp del]

text \<open>\<^verbatim>\<open>isValidJSON\<close>; \<open>n\<close> is the fuel handed to \<^verbatim>\<open>validany\<close>.\<close>

function isValidJSON :: "nat \<Rightarrow> char list \<Rightarrow> nat \<Rightarrow> int \<Rightarrow> Verify \<Rightarrow> res option" where
  "isValidJSON n data i depth verifier =
     (if i < length data then
        (if is_ws (data ! i) then isValidJSON n data (i + 1) depth verifier
         else
           (case validany n data i depth verifier of
              None \<Rightarrow> None
            | Some (i, ok, err, depth) \<Rightarrow>
                if \<not> ok \<or> err \<noteq> None then Some (i, False, err, depth)
                else Some (isValidJSON_rest data i err depth)))
      else Some (i, False, None, depth))"
  by pat_completeness auto
termination
  by (relation "measure (\<lambda>(n, data, i, d, v). length data - i)") auto

declare isValidJSON.simps [simp del]

text \<open>
  \<^verbatim>\<open>VerifyBytes\<close>: the depth counter starts at 0; a failure without an error becomes
  \<^verbatim>\<open>ErrInvalidJSON\<close>. \<^verbatim>\<open>VerifyString\<close> is \<^verbatim>\<open>VerifyBytes\<close> on the bytes of the string.
\<close>

definition VerifyBytes :: "nat \<Rightarrow> Verify \<Rightarrow> char list \<Rightarrow> (bool \<times> error) option" where
  "VerifyBytes n v json =
     (case isValidJSON n json 0 0 v of
        None \<Rightarrow> None
      | Some (outi, ok, err, depth) \<Rightarrow>
          Some (ok, if err = None \<and> ok = False then Some ErrInvalidJSON else err))"

definition VerifyString :: "nat \<Rightarrow> Verify \<Rightarrow> string \<Rightarrow> (bool \<times> error) option" where
  "VerifyString n v json = VerifyBytes n v json"

section \<open>Test documents and configurations\<close>

text \<open>A document of one string value of 47 characters, and the configuration with only
  the string-length limit enabled.\<close>

definition doc47 :: string where
  "doc47 = CHR 0x22 # ''abcdefghijklmnopqrstuvwxyzabcdefghijklmnopqrstv'' @ [CHR 0x22]"

definition only_string_limit :: "int \<Rightarrow> Verify" where
  "only_string_limit m = Verify0\<lparr>stringLenEnabled := True, StringValueLen := m\<rparr>"

text \<open>
  The limit errors of a configuration: one of the five labels, the configured maximum of
  that limit, and any found value. \<open>errok\<close>: an error value is \<^verbatim>\<open>nil\<close> or one of them.
\<close>

definition limit_errors :: "Verify \<Rightarrow> string set" where
  "limit_errors v =
     {e. \<exists>found.
        e = limit_error ''maxStringValueLengthReached'' (StringValueLen v) found \<or>
        e = limit_error ''maxArrayElementCountReached'' (MaxArrayElementCount v) found \<or>
        e = limit_error ''maxKeyLengthReached'' (ObjectKeyLength v) found \<or>
        e = limit_error ''maxContainerDepthReached'' (JSONContainerDepth v) found \<or>
        e = limit_error ''maxObjectEntryCountReached'' (ObjectEntryCount v) found}"

definition errok :: "Verify \<Rightarrow> error \<Rightarrow> bool" where
  "errok v e = (\<forall>m. e = Some m \<longrightarrow> m \<in> limit_errors v)"

text \<open>
  What a call does to the depth counter: \<^verbatim>\<open>validany\<close> gives it back as it was when it
  succeeds, a container validator (entered after the increment) gives it back one lower
  when it succeeds; a failing call never gives back less than it was given.
\<close>

definition depth_kept :: "int \<Rightarrow> bool \<Rightarrow> int \<Rightarrow> bool" where
  "depth_kept d ok d' = (if ok then d' = d else d \<le> d')"

definition depth_closed :: "int \<Rightarrow> bool \<Rightarrow> int \<Rightarrow> bool" where
  "depth_closed d ok d' = (if ok then d' = d - 1 else d \<le> d')"







text \<open>
  The array of \<open>k\<close> elements \<^verbatim>\<open>[1,1,...,1]\<close> and the object of \<open>k\<close> members
  \<^verbatim>\<open>{"a":1,"a":1,...}\<close>, with the configurations that enable only the array element
  count or only the object entry count; \<open>is_delim\<close>: the bytes that end the number 1 in
  these documents.
\<close>

definition array_of_ones :: "nat \<Rightarrow> string" where
  "array_of_ones k = ''['' @ concat (replicate (k - 1) ''1,'') @ ''1]''"

definition only_array_limit :: "int \<Rightarrow> Verify" where
  "only_array_limit m = Verify0\<lparr>arrayEntryCountEnabled := True, MaxArrayElementCount := m\<rparr>"

definition is_delim :: "char \<Rightarrow> bool" where
  "is_delim c = (c = CHR '','' \<or> c = CHR '']'' \<or> c = CHR ''}'')"

definition member :: string where
  "member = CHR 0x22 # ''a'' @ CHR 0x22 # '':1''"

definition object_of_members :: "nat \<Rightarrow> string" where
  "object_of_members k = ''{'' @ concat (replicate (k - 1) (member @ '','')) @ member @ ''}''"

definition only_entry_limit :: "int \<Rightarrow> Verify" where
  "only_entry_limit m = Verify0\<lparr>objectEntryCountEnabled := True, ObjectEntryCount := m\<rparr>"

text \<open>An object cut off after the key of its second member: \<^verbatim>\<open>{"a":1,"b"\<close>.\<close>

definition second_key_only :: string where
  "second_key_only = ''{'' @ member @ '','' @ [CHR 0x22] @ ''b'' @ [CHR 0x22]"


text \<open>
  A run that returns, and on success returns a cursor not before \<open>i\<close>; and the fuel that
  is enough from the cursor \<open>i\<close>: five units for each byte still to read.
\<close>

definition good :: "nat \<Rightarrow> res option \<Rightarrow> bool" where
  "good i r = (\<exists>j ok e d. r = Some (j, ok, e, d) \<and> (ok \<longrightarrow> i \<le> j))"

definition fuel_for :: "char list \<Rightarrow> nat \<Rightarrow> nat" where
  "fuel_for data i = 5 * (length data + 1 - i)"

section \<open>Fuel\<close>

text \<open>One more unit of fuel does not change a result that was already reached.\<close>

lemma fuel_step:
  "(\<forall>i d. validany n data i d v \<noteq> None \<longrightarrow> validany (Suc n) data i d v = validany n data i d v) \<and>
   (\<forall>i d. validany_loop n data i d v \<noteq> None \<longrightarrow> validany_loop (Suc n) data i d v = validany_loop n data i d v) \<and>
   (\<forall>i d. isValidArray n data i d v \<noteq> None \<longrightarrow> isValidArray (Suc n) data i d v = isValidArray n data i d v) \<and>
   (\<forall>i d e. isValidArray_loop n data i d v e \<noteq> None \<longrightarrow> isValidArray_loop (Suc n) data i d v e = isValidArray_loop n data i d v e) \<and>
   (\<forall>i d e c. isValidArray_elems n data i d v e c \<noteq> None \<longrightarrow> isValidArray_elems (Suc n) data i d v e c = isValidArray_elems n data i d v e c) \<and>
   (\<forall>i d. isValidObject n data i d v \<noteq> None \<longrightarrow> isValidObject (Suc n) data i d v = isValidObject n data i d v) \<and>
   (\<forall>i d. isValidObject_loop n data i d v \<noteq> None \<longrightarrow> isValidObject_loop (Suc n) data i d v = isValidObject_loop n data i d v) \<and>
   (\<forall>i d e c. isValidObject_key n data i d v e c \<noteq> None \<longrightarrow> isValidObject_key (Suc n) data i d v e c = isValidObject_key n data i d v e c) \<and>
   (\<forall>i d e c. isValidObject_next n data i d v e c \<noteq> None \<longrightarrow> isValidObject_next (Suc n) data i d v e c = isValidObject_next n data i d v e c)"
proof (induction n)
  case 0
  show ?case by (simp add: validany.simps validany_loop.simps isValidArray.simps isValidArray_loop.simps isValidArray_elems.simps isValidObject.simps isValidObject_loop.simps isValidObject_key.simps isValidObject_next.simps)
next
  case (Suc n)
  note IH = Suc.IH
  have IH1: "validany n data i d v \<noteq> None \<Longrightarrow> validany (Suc n) data i d v = validany n data i d v" for i d using IH by simp
  have IH2: "validany_loop n data i d v \<noteq> None \<Longrightarrow> validany_loop (Suc n) data i d v = validany_loop n data i d v" for i d using IH by simp
  have IH3: "isValidArray n data i d v \<noteq> None \<Longrightarrow> isValidArray (Suc n) data i d v = isValidArray n data i d v" for i d using IH by simp
  have IH4: "isValidArray_loop n data i d v e \<noteq> None \<Longrightarrow> isValidArray_loop (Suc n) data i d v e = isValidArray_loop n data i d v e" for i d e using IH by simp
  have IH5: "isValidArray_elems n data i d v e c \<noteq> None \<Longrightarrow> isValidArray_elems (Suc n) data i d v e c = isValidArray_elems n data i d v e c" for i d e c using IH by simp
  have IH6: "isValidObject n data i d v \<noteq> None \<Longrightarrow> isValidObject (Suc n) data i d v = isValidObject n data i d v" for i d using IH by simp
  have IH7: "isValidObject_loop n data i d v \<noteq> None \<Longrightarrow> isValidObject_loop (Suc n) data i d v = isValidObject_loop n data i d v" for i d using IH by simp
  have IH8: "isValidObject_key n data i d v e c \<noteq> None \<Longrightarrow> isValidObject_key (Suc n) data i d v e c = isValidObject_key n data i d v e c" for i d e c using IH by simp
  have IH9: "isValidObject_next n data i d v e c \<noteq> None \<Longrightarrow> isValidObject_next (Suc n) data i d v e c = isValidObject_next n data i d v e c" for i d e c using IH by simp
  have 1: "validany (Suc n) data i d v \<noteq> None \<longrightarrow> validany (Suc (Suc n)) data i d v = validany (Suc n) data i d v" for i d
    apply (subst validany.simps(2)[of n])
    apply (subst validany.simps(2)[of n])
    apply (subst validany.simps(2)[of "Suc n"])
    apply (simp add: IH2)
    done
  have 2: "validany_loop (Suc n) data i d v \<noteq> None \<longrightarrow> validany_loop (Suc (Suc n)) data i d v = validany_loop (Suc n) data i d v" for i d
    apply (subst validany_loop.simps(2)[of n])
    apply (subst validany_loop.simps(2)[of n])
    apply (subst validany_loop.simps(2)[of "Suc n"])
    apply (simp add: IH2 IH3 IH6 split: prod.split)
    done
  have 3: "isValidArray (Suc n) data i d v \<noteq> None \<longrightarrow> isValidArray (Suc (Suc n)) data i d v = isValidArray (Suc n) data i d v" for i d
    apply (subst isValidArray.simps(2)[of n])
    apply (subst isValidArray.simps(2)[of n])
    apply (subst isValidArray.simps(2)[of "Suc n"])
    apply (simp add: IH4)
    done
  have 4: "isValidArray_loop (Suc n) data i d v e \<noteq> None \<longrightarrow> isValidArray_loop (Suc (Suc n)) data i d v e = isValidArray_loop (Suc n) data i d v e" for i d e
    apply (subst isValidArray_loop.simps(2)[of n])
    apply (subst isValidArray_loop.simps(2)[of n])
    apply (subst isValidArray_loop.simps(2)[of "Suc n"])
    apply (simp add: IH4 IH5)
    done
  have 5: "isValidArray_elems (Suc n) data i d v e c \<noteq> None \<longrightarrow> isValidArray_elems (Suc (Suc n)) data i d v e c = isValidArray_elems (Suc n) data i d v e c" for i d e c
    apply (subst isValidArray_elems.simps(2)[of n])
    apply (subst isValidArray_elems.simps(2)[of n])
    apply (subst isValidArray_elems.simps(2)[of "Suc n"])
    apply (cases "validany n data i d v")
     apply (simp add: IH4)
    apply (auto simp: IH1 IH4 IH5 Let_def split: prod.split)
    done
  have 6: "isValidObject (Suc n) data i d v \<noteq> None \<longrightarrow> isValidObject (Suc (Suc n)) data i d v = isValidObject (Suc n) data i d v" for i d
    apply (subst isValidObject.simps(2)[of n])
    apply (subst isValidObject.simps(2)[of n])
    apply (subst isValidObject.simps(2)[of "Suc n"])
    apply (simp add: IH7)
    done
  have 7: "isValidObject_loop (Suc n) data i d v \<noteq> None \<longrightarrow> isValidObject_loop (Suc (Suc n)) data i d v = isValidObject_loop (Suc n) data i d v" for i d
    apply (subst isValidObject_loop.simps(2)[of n])
    apply (subst isValidObject_loop.simps(2)[of n])
    apply (subst isValidObject_loop.simps(2)[of "Suc n"])
    apply (simp add: IH7 IH8)
    done
  have 8: "isValidObject_key (Suc n) data i d v e c \<noteq> None \<longrightarrow> isValidObject_key (Suc (Suc n)) data i d v e c = isValidObject_key (Suc n) data i d v e c" for i d e c
    apply (subst isValidObject_key.simps(2)[of n])
    apply (subst isValidObject_key.simps(2)[of n])
    apply (subst isValidObject_key.simps(2)[of "Suc n"])
    apply (cases "validany n data (fst (isValidColon data (fst (isValidateString data (i + 1))))) d v")
     apply (simp add: Let_def split: prod.split)
    apply (auto simp: IH1 IH9 Let_def split: prod.split)
    done
  have 9: "isValidObject_next (Suc n) data i d v e c \<noteq> None \<longrightarrow> isValidObject_next (Suc (Suc n)) data i d v e c = isValidObject_next (Suc n) data i d v e c" for i d e c
    apply (subst isValidObject_next.simps(2)[of n])
    apply (subst isValidObject_next.simps(2)[of n])
    apply (subst isValidObject_next.simps(2)[of "Suc n"])
    apply (simp add: IH8 IH9)
    done
  show ?case using 1 2 3 4 5 6 7 8 9 by blast
qed

lemma validany_Suc:
  assumes "validany n data i d v = Some r"
  shows "validany (Suc n) data i d v = Some r"
proof -
  have "validany n data i d v \<noteq> None"
    using assms by simp
  then have "validany (Suc n) data i d v = validany n data i d v"
    using fuel_step [of n data v] by simp
  then show ?thesis
    using assms by simp
qed

lemma validany_mono:
  "validany n data i d v = Some r \<Longrightarrow> n \<le> m \<Longrightarrow> validany m data i d v = Some r"
  by (induction m) (auto simp: le_Suc_eq validany_Suc)

lemma isValidJSON_mono:
  "isValidJSON n data i d v = Some r \<Longrightarrow> n \<le> m \<Longrightarrow> isValidJSON m data i d v = Some r"
proof (induction n data i d v rule: isValidJSON.induct)
  case (1 n data i depth verifier)
  show ?case
  proof (cases "i < length data \<and> \<not> is_ws (data ! i)")
    case True
    with "1.prems" obtain x where x: "validany n data i depth verifier = Some x"
      by (subst (asm) isValidJSON.simps) (auto split: option.splits)
    have "validany m data i depth verifier = Some x"
      using validany_mono [OF x \<open>n \<le> m\<close>] .
    with x True "1.prems"(1) show ?thesis
      by (subst isValidJSON.simps, subst (asm) isValidJSON.simps) simp
  next
    case False
    with 1 show ?thesis
      by (subst isValidJSON.simps, subst (asm) isValidJSON.simps) (auto split: if_splits)
  qed
qed

lemma VerifyBytes_mono:
  "VerifyBytes n v json = Some r \<Longrightarrow> n \<le> m \<Longrightarrow> VerifyBytes m v json = Some r"
  unfolding VerifyBytes_def
  by (auto split: option.splits dest: isValidJSON_mono)

lemma isValidJSON_ws:
  "(\<forall>k. i \<le> k \<and> k < length data \<longrightarrow> is_ws (data ! k)) \<Longrightarrow>
   isValidJSON n data i d v = Some (max i (length data), False, None, d)"
proof (induction n data i d v rule: isValidJSON.induct)
  case (1 n data i depth verifier)
  show ?case
  proof (cases "i < length data")
    case True
    with "1.prems" have ws: "is_ws (data ! i)" by simp
    have "isValidJSON n data (i + 1) depth verifier =
            Some (max (i + 1) (length data), False, None, depth)"
      using "1.IH" [OF True ws] "1.prems" by simp
    with True ws show ?thesis
      by (subst isValidJSON.simps) (simp add: max_def)
  next
    case False
    then show ?thesis
      by (subst isValidJSON.simps) (simp add: max_def)
  qed
qed

lemma isValidJSON_rest_ok:
  "isValidJSON_rest data i err d = (j, True, e, d') \<Longrightarrow> e = err"
proof (induction data i err d rule: isValidJSON_rest.induct)
  case (1 data i err depth)
  then show ?case
    by (subst (asm) (2) isValidJSON_rest.simps) (auto split: if_splits)
qed

lemma isValidJSON_ok_nil:
  "isValidJSON n data i d v = Some (j, True, e, d') \<Longrightarrow> e = None"
proof (induction n data i d v rule: isValidJSON.induct)
  case (1 n data i depth verifier)
  from "1.prems" show ?case
    apply (subst (asm) isValidJSON.simps)
    apply (auto split: if_splits option.splits dest: isValidJSON_rest_ok "1.IH")
    done
qed


lemma VerifyBytes_fuel_add:
  "VerifyBytes k v json = Some r \<Longrightarrow> VerifyBytes (n + k) v json = Some r"
  using VerifyBytes_mono [of k v json r "n + k"] by simp


section \<open>Every error of the validators is a limit error\<close>

lemma errok_None [simp]: "errok v None"
  by (simp add: errok_def)

lemma errok_depth [simp]: "errok v (Some (depth_error v d))"
  by (auto simp: errok_def limit_errors_def depth_error_def)

lemma errok_array [simp]:
  "errok v (Some (limit_error ''maxArrayElementCountReached'' (MaxArrayElementCount v) c))"
  by (auto simp: errok_def limit_errors_def)

lemma errok_object [simp]:
  "errok v (Some (limit_error ''maxObjectEntryCountReached'' (ObjectEntryCount v) c))"
  by (auto simp: errok_def limit_errors_def)

lemma errok_value [simp]:
  "errok v (validateStringLength data s e b (StringValueLen v) stringValueLength)"
  by (auto simp: errok_def limit_errors_def validateStringLength_def Let_def stringValueLength_def)

lemma errok_key [simp]:
  "errok v (validateStringLength data s e b (ObjectKeyLength v) objectKeyValueLength)"
  by (auto simp: errok_def limit_errors_def validateStringLength_def Let_def objectKeyValueLength_def)


lemma errok_elems_case:
  assumes IH1: "\<And>i d j ok e d'. validany n data i d v = Some (j, ok, e, d') \<Longrightarrow> errok v e"
    and IH4: "\<And>i d ein j ok e d'. isValidArray_loop n data i d v ein = Some (j, ok, e, d') \<Longrightarrow> errok v ein \<Longrightarrow> errok v e"
    and IH5: "\<And>i d ein c j ok e d'. isValidArray_elems n data i d v ein c = Some (j, ok, e, d') \<Longrightarrow> errok v ein \<Longrightarrow> errok v e"
    and r: "isValidArray_elems (Suc n) data i d v ein c = Some (j, ok, e, d')"
    and ein: "errok v ein"
  shows "errok v e"
proof (cases "i < length data")
  case False
  with r have "isValidArray_loop n data (i + 1) d v ein = Some (j, ok, e, d')"
    by (subst (asm) isValidArray_elems.simps(2)) simp
  then show ?thesis using ein by (rule IH4)
next
  case True
  show ?thesis
  proof (cases "validany n data i d v")
    case None
    with r True show ?thesis
      by (subst (asm) isValidArray_elems.simps(2)) simp
  next
    case (Some x)
    obtain i1 ok1 e1 d1 where x: "x = (i1, ok1, e1, d1)"
      by (cases x) auto
    have e1: "errok v e1"
      using Some x IH1 by simp
    obtain i2 ok2 where c: "isValidComma data i1 CHR '']'' = (i2, ok2)"
      by (cases "isValidComma data i1 CHR '']''") auto
    from r True Some x c e1 show ?thesis
      apply (subst (asm) isValidArray_elems.simps(2))
      apply (auto simp: Let_def split: if_splits elim: IH5)
      done
  qed
qed


lemma errok_key_case:
  assumes IH1: "\<And>i d j ok e d'. validany n data i d v = Some (j, ok, e, d') \<Longrightarrow> errok v e"
    and IH9: "\<And>i d ein c j ok e d'. isValidObject_next n data i d v ein c = Some (j, ok, e, d') \<Longrightarrow> errok v ein \<Longrightarrow> errok v e"
    and r: "isValidObject_key (Suc n) data i d v ein c = Some (j, ok, e, d')"
    and ein: "errok v ein"
  shows "errok v e"
proof -
  obtain i1 ok1 where s: "isValidateString data (i + 1) = (i1, ok1)"
    by (cases "isValidateString data (i + 1)") auto
  obtain i2 ok2 where c: "isValidColon data i1 = (i2, ok2)"
    by (cases "isValidColon data i1") auto
  have k: "errok v (validateStringLength data i i1 (objectKeyLengthEnabled v)
             (ObjectKeyLength v) objectKeyValueLength)"
    by simp
  show ?thesis
  proof (cases "validany n data i2 d v")
    case None
    with r s c ein k show ?thesis
      apply (subst (asm) isValidObject_key.simps(2))
      apply (auto simp: Let_def split: if_splits)
      done
  next
    case (Some x)
    obtain i3 ok3 e3 d3 where x: "x = (i3, ok3, e3, d3)"
      by (cases x) auto
    have e3: "errok v e3"
      using Some x IH1 by simp
    obtain i4 ok4 where m: "isValidComma data i3 CHR ''}'' = (i4, ok4)"
      by (cases "isValidComma data i3 CHR ''}''") auto
    from r s c ein k Some x e3 m show ?thesis
      apply (subst (asm) isValidObject_key.simps(2))
      apply (auto simp: Let_def split: if_splits elim: IH9)
      done
  qed
qed

lemma errok_step:
  "(\<forall>i d j ok e d'. validany n data i d v = Some (j, ok, e, d') \<longrightarrow> errok v e) \<and>
   (\<forall>i d j ok e d'. validany_loop n data i d v = Some (j, ok, e, d') \<longrightarrow> errok v e) \<and>
   (\<forall>i d j ok e d'. isValidArray n data i d v = Some (j, ok, e, d') \<longrightarrow> errok v e) \<and>
   (\<forall>i d ein j ok e d'. isValidArray_loop n data i d v ein = Some (j, ok, e, d') \<longrightarrow> errok v ein \<longrightarrow> errok v e) \<and>
   (\<forall>i d ein c j ok e d'. isValidArray_elems n data i d v ein c = Some (j, ok, e, d') \<longrightarrow> errok v ein \<longrightarrow> errok v e) \<and>
   (\<forall>i d j ok e d'. isValidObject n data i d v = Some (j, ok, e, d') \<longrightarrow> errok v e) \<and>
   (\<forall>i d j ok e d'. isValidObject_loop n data i d v = Some (j, ok, e, d') \<longrightarrow> errok v e) \<and>
   (\<forall>i d ein c j ok e d'. isValidObject_key n data i d v ein c = Some (j, ok, e, d') \<longrightarrow> errok v ein \<longrightarrow> errok v e) \<and>
   (\<forall>i d ein c j ok e d'. isValidObject_next n data i d v ein c = Some (j, ok, e, d') \<longrightarrow> errok v ein \<longrightarrow> errok v e)"
proof (induction n)
  case 0
  show ?case
    by (simp add: validany.simps validany_loop.simps isValidArray.simps
        isValidArray_loop.simps isValidArray_elems.simps isValidObject.simps
        isValidObject_loop.simps isValidObject_key.simps isValidObject_next.simps)
next
  case (Suc n)
  note IH1 = Suc.IH[THEN conjunct1, rule_format]
  note IH2 = Suc.IH[THEN conjunct2, THEN conjunct1, rule_format]
  note IH3 = Suc.IH[THEN conjunct2, THEN conjunct2, THEN conjunct1, rule_format]
  note IH4 = Suc.IH[THEN conjunct2, THEN conjunct2, THEN conjunct2, THEN conjunct1, rule_format]
  note IH5 = Suc.IH[THEN conjunct2, THEN conjunct2, THEN conjunct2, THEN conjunct2, THEN conjunct1, rule_format]
  note IH6 = Suc.IH[THEN conjunct2, THEN conjunct2, THEN conjunct2, THEN conjunct2, THEN conjunct2, THEN conjunct1, rule_format]
  note IH7 = Suc.IH[THEN conjunct2, THEN conjunct2, THEN conjunct2, THEN conjunct2, THEN conjunct2, THEN conjunct2, THEN conjunct1, rule_format]
  note IH8 = Suc.IH[THEN conjunct2, THEN conjunct2, THEN conjunct2, THEN conjunct2, THEN conjunct2, THEN conjunct2, THEN conjunct2, THEN conjunct1, rule_format]
  note IH9 = Suc.IH[THEN conjunct2, THEN conjunct2, THEN conjunct2, THEN conjunct2, THEN conjunct2, THEN conjunct2, THEN conjunct2, THEN conjunct2, rule_format]
  have 1: "validany (Suc n) data i d v = Some (j, ok, e, d') \<Longrightarrow> errok v e" for i d j ok e d'
    by (subst (asm) validany.simps(2)) (auto dest: IH2 split: if_splits)
  have 2: "validany_loop (Suc n) data i d v = Some (j, ok, e, d') \<Longrightarrow> errok v e" for i d j ok e d'
    by (subst (asm) validany_loop.simps(2)) (auto dest: IH2 IH3 IH6 split: prod.splits if_splits)
  have 3: "isValidArray (Suc n) data i d v = Some (j, ok, e, d') \<Longrightarrow> errok v e" for i d j ok e d'
    by (subst (asm) isValidArray.simps(2)) (auto elim: IH4 split: if_splits)
  have 4: "isValidArray_loop (Suc n) data i d v ein = Some (j, ok, e, d') \<Longrightarrow> errok v ein \<Longrightarrow> errok v e" for i d ein j ok e d'
    by (subst (asm) isValidArray_loop.simps(2)) (auto elim: IH4 IH5 split: if_splits)
  have 5: "isValidArray_elems (Suc n) data i d v ein c = Some (j, ok, e, d') \<Longrightarrow> errok v ein \<Longrightarrow> errok v e" for i d ein c j ok e d'
    by (rule errok_elems_case [of n data v i d ein c j ok e d']) (erule IH1 IH4 IH5 | assumption)+
  have 6: "isValidObject (Suc n) data i d v = Some (j, ok, e, d') \<Longrightarrow> errok v e" for i d j ok e d'
    by (subst (asm) isValidObject.simps(2)) (auto dest: IH7 split: if_splits)
  have 7: "isValidObject_loop (Suc n) data i d v = Some (j, ok, e, d') \<Longrightarrow> errok v e" for i d j ok e d'
    by (subst (asm) isValidObject_loop.simps(2)) (auto elim: IH7 IH8 split: if_splits)
  have 8: "isValidObject_key (Suc n) data i d v ein c = Some (j, ok, e, d') \<Longrightarrow> errok v ein \<Longrightarrow> errok v e" for i d ein c j ok e d'
    by (rule errok_key_case [of n data v i d ein c j ok e d']) (erule IH1 IH9 | assumption)+
  have 9: "isValidObject_next (Suc n) data i d v ein c = Some (j, ok, e, d') \<Longrightarrow> errok v ein \<Longrightarrow> errok v e" for i d ein c j ok e d'
    by (subst (asm) isValidObject_next.simps(2)) (auto elim: IH8 IH9 split: if_splits)
  show ?case
    by (intro conjI allI impI) (erule 1 2 3 4 5 6 7 8 9 | assumption)+
qed

lemma isValidJSON_rest_err:
  "isValidJSON_rest data i err d = (j, ok, e, d') \<Longrightarrow> e = err \<and> d' = d"
proof (induction data i err d rule: isValidJSON_rest.induct)
  case (1 data i err depth)
  then show ?case
    by (subst (asm) (2) isValidJSON_rest.simps) (auto split: if_splits)
qed

lemma validany_errok:
  "validany n data i d v = Some (j, ok, e, d') \<Longrightarrow> errok v e"
  by (rule errok_step [THEN conjunct1, rule_format])

lemma isValidJSON_errok:
  "isValidJSON n data i d v = Some (j, ok, e, d') \<Longrightarrow> errok v e"
proof (induction n data i d v rule: isValidJSON.induct)
  case (1 n data i depth verifier)
  show ?case
  proof (cases "i < length data \<and> \<not> is_ws (data ! i)")
    case False
    with 1 show ?thesis
      by (subst (asm) (2) isValidJSON.simps) (auto split: if_splits)
  next
    case True
    with "1.prems" obtain i1 ok1 e1 d1
      where x: "validany n data i depth verifier = Some (i1, ok1, e1, d1)"
      by (subst (asm) isValidJSON.simps) (auto split: option.splits)
    have e1: "errok verifier e1"
      using x by (rule validany_errok)
    from "1.prems" True x e1 show ?thesis
      by (subst (asm) isValidJSON.simps)
        (auto split: if_splits dest: isValidJSON_rest_err)
  qed
qed

section \<open>The depth counter\<close>

lemma depth_elems_case:
  assumes IH1: "\<And>i d j ok e d'. validany n data i d v = Some (j, ok, e, d') \<Longrightarrow> depth_kept d ok d'"
    and IH4: "\<And>i d ein j ok e d'. isValidArray_loop n data i d v ein = Some (j, ok, e, d') \<Longrightarrow> depth_closed d ok d'"
    and IH5: "\<And>i d ein c j ok e d'. isValidArray_elems n data i d v ein c = Some (j, ok, e, d') \<Longrightarrow> depth_closed d ok d'"
    and r: "isValidArray_elems (Suc n) data i d v ein c = Some (j, ok, e, d')"
  shows "depth_closed d ok d'"
proof (cases "i < length data")
  case False
  with r have "isValidArray_loop n data (i + 1) d v ein = Some (j, ok, e, d')"
    by (subst (asm) isValidArray_elems.simps(2)) simp
  then show ?thesis by (rule IH4)
next
  case True
  show ?thesis
  proof (cases "validany n data i d v")
    case None
    with r True show ?thesis
      by (subst (asm) isValidArray_elems.simps(2)) simp
  next
    case (Some x)
    obtain i1 ok1 e1 d1 where x: "x = (i1, ok1, e1, d1)"
      by (cases x) auto
    have k: "depth_kept d ok1 d1"
      using Some x IH1 by simp
    obtain i2 ok2 where c: "isValidComma data i1 CHR '']'' = (i2, ok2)"
      by (cases "isValidComma data i1 CHR '']''") auto
    from r True Some x c k show ?thesis
      apply (subst (asm) isValidArray_elems.simps(2))
      apply (auto simp: Let_def depth_kept_def split: if_splits dest: IH5)
         apply (auto simp: depth_closed_def)
      done
  qed
qed

lemma depth_key_case:
  assumes IH1: "\<And>i d j ok e d'. validany n data i d v = Some (j, ok, e, d') \<Longrightarrow> depth_kept d ok d'"
    and IH9: "\<And>i d ein c j ok e d'. isValidObject_next n data i d v ein c = Some (j, ok, e, d') \<Longrightarrow> depth_closed d ok d'"
    and r: "isValidObject_key (Suc n) data i d v ein c = Some (j, ok, e, d')"
  shows "depth_closed d ok d'"
proof -
  obtain i1 ok1 where s: "isValidateString data (i + 1) = (i1, ok1)"
    by (cases "isValidateString data (i + 1)") auto
  obtain i2 ok2 where c: "isValidColon data i1 = (i2, ok2)"
    by (cases "isValidColon data i1") auto
  show ?thesis
  proof (cases "validany n data i2 d v")
    case None
    with r s c show ?thesis
      apply (subst (asm) isValidObject_key.simps(2))
      apply (auto simp: Let_def depth_closed_def split: if_splits)
      done
  next
    case (Some x)
    obtain i3 ok3 e3 d3 where x: "x = (i3, ok3, e3, d3)"
      by (cases x) auto
    have k: "depth_kept d ok3 d3"
      using Some x IH1 by simp
    obtain i4 ok4 where m: "isValidComma data i3 CHR ''}'' = (i4, ok4)"
      by (cases "isValidComma data i3 CHR ''}''") auto
    from r s c Some x k m show ?thesis
      apply (subst (asm) isValidObject_key.simps(2))
      apply (auto simp: Let_def depth_kept_def split: if_splits dest: IH9)
         apply (auto simp: depth_closed_def)
      done
  qed
qed

lemma depth_step:
  "(\<forall>i d j ok e d'. validany n data i d v = Some (j, ok, e, d') \<longrightarrow> depth_kept d ok d') \<and>
   (\<forall>i d j ok e d'. validany_loop n data i d v = Some (j, ok, e, d') \<longrightarrow> depth_kept d ok d') \<and>
   (\<forall>i d j ok e d'. isValidArray n data i d v = Some (j, ok, e, d') \<longrightarrow> depth_closed d ok d') \<and>
   (\<forall>i d ein j ok e d'. isValidArray_loop n data i d v ein = Some (j, ok, e, d') \<longrightarrow> depth_closed d ok d') \<and>
   (\<forall>i d ein c j ok e d'. isValidArray_elems n data i d v ein c = Some (j, ok, e, d') \<longrightarrow> depth_closed d ok d') \<and>
   (\<forall>i d j ok e d'. isValidObject n data i d v = Some (j, ok, e, d') \<longrightarrow> depth_closed d ok d') \<and>
   (\<forall>i d j ok e d'. isValidObject_loop n data i d v = Some (j, ok, e, d') \<longrightarrow> depth_closed d ok d') \<and>
   (\<forall>i d ein c j ok e d'. isValidObject_key n data i d v ein c = Some (j, ok, e, d') \<longrightarrow> depth_closed d ok d') \<and>
   (\<forall>i d ein c j ok e d'. isValidObject_next n data i d v ein c = Some (j, ok, e, d') \<longrightarrow> depth_closed d ok d')"
proof (induction n)
  case 0
  show ?case
    by (simp add: validany.simps validany_loop.simps isValidArray.simps
        isValidArray_loop.simps isValidArray_elems.simps isValidObject.simps
        isValidObject_loop.simps isValidObject_key.simps isValidObject_next.simps)
next
  case (Suc n)
  note IH1 = Suc.IH[THEN conjunct1, rule_format]
  note IH2 = Suc.IH[THEN conjunct2, THEN conjunct1, rule_format]
  note IH3 = Suc.IH[THEN conjunct2, THEN conjunct2, THEN conjunct1, rule_format]
  note IH4 = Suc.IH[THEN conjunct2, THEN conjunct2, THEN conjunct2, THEN conjunct1, rule_format]
  note IH5 = Suc.IH[THEN conjunct2, THEN conjunct2, THEN conjunct2, THEN conjunct2, THEN conjunct1, rule_format]
  note IH6 = Suc.IH[THEN conjunct2, THEN conjunct2, THEN conjunct2, THEN conjunct2, THEN conjunct2, THEN conjunct1, rule_format]
  note IH7 = Suc.IH[THEN conjunct2, THEN conjunct2, THEN conjunct2, THEN conjunct2, THEN conjunct2, THEN conjunct2, THEN conjunct1, rule_format]
  note IH8 = Suc.IH[THEN conjunct2, THEN conjunct2, THEN conjunct2, THEN conjunct2, THEN conjunct2, THEN conjunct2, THEN conjunct2, THEN conjunct1, rule_format]
  note IH9 = Suc.IH[THEN conjunct2, THEN conjunct2, THEN conjunct2, THEN conjunct2, THEN conjunct2, THEN conjunct2, THEN conjunct2, THEN conjunct2, rule_format]
  have 1: "validany (Suc n) data i d v = Some (j, ok, e, d') \<Longrightarrow> depth_kept d ok d'" for i d j ok e d'
    by (subst (asm) validany.simps(2)) (auto dest: IH2 split: if_splits simp: depth_kept_def)
  have 2: "validany_loop (Suc n) data i d v = Some (j, ok, e, d') \<Longrightarrow> depth_kept d ok d'" for i d j ok e d'
    apply (subst (asm) validany_loop.simps(2))
    apply (auto dest: IH2 split: prod.splits if_splits)
           apply (auto simp: depth_kept_def depth_closed_def dest!: IH3 IH6 split: if_splits)
    done
  have 3: "isValidArray (Suc n) data i d v = Some (j, ok, e, d') \<Longrightarrow> depth_closed d ok d'" for i d j ok e d'
    by (subst (asm) isValidArray.simps(2)) (auto dest: IH4 split: if_splits simp: depth_closed_def)
  have 4: "isValidArray_loop (Suc n) data i d v ein = Some (j, ok, e, d') \<Longrightarrow> depth_closed d ok d'" for i d ein j ok e d'
    by (subst (asm) isValidArray_loop.simps(2)) (auto dest: IH4 IH5 split: if_splits simp: depth_closed_def)
  have 5: "isValidArray_elems (Suc n) data i d v ein c = Some (j, ok, e, d') \<Longrightarrow> depth_closed d ok d'" for i d ein c j ok e d'
    by (rule depth_elems_case [of n data v i d ein c j ok e d']) (erule IH1 IH4 IH5 | assumption)+
  have 6: "isValidObject (Suc n) data i d v = Some (j, ok, e, d') \<Longrightarrow> depth_closed d ok d'" for i d j ok e d'
    by (subst (asm) isValidObject.simps(2)) (auto dest: IH7 split: if_splits simp: depth_closed_def)
  have 7: "isValidObject_loop (Suc n) data i d v = Some (j, ok, e, d') \<Longrightarrow> depth_closed d ok d'" for i d j ok e d'
    by (subst (asm) isValidObject_loop.simps(2)) (auto dest: IH7 IH8 split: if_splits simp: depth_closed_def)
  have 8: "isValidObject_key (Suc n) data i d v ein c = Some (j, ok, e, d') \<Longrightarrow> depth_closed d ok d'" for i d ein c j ok e d'
    by (rule depth_key_case [of n data v i d ein c j ok e d']) (erule IH1 IH9 | assumption)+
  have 9: "isValidObject_next (Suc n) data i d v ein c = Some (j, ok, e, d') \<Longrightarrow> depth_closed d ok d'" for i d ein c j ok e d'
    by (subst (asm) isValidObject_next.simps(2)) (auto dest: IH8 IH9 split: if_splits simp: depth_closed_def)
  show ?case
    by (intro conjI allI impI) (erule 1 2 3 4 5 6 7 8 9 | assumption)+
qed

lemma validany_depth:
  "validany n data i d v = Some (j, ok, e, d') \<Longrightarrow> depth_kept d ok d'"
  by (rule depth_step [THEN conjunct1, rule_format])

lemma isValidArray_depth:
  "isValidArray n data i d v = Some (j, ok, e, d') \<Longrightarrow> depth_closed d ok d'"
  by (rule depth_step [THEN conjunct2, THEN conjunct2, THEN conjunct1, rule_format])

lemma isValidObject_depth:
  "isValidObject n data i d v = Some (j, ok, e, d') \<Longrightarrow> depth_closed d ok d'"
  by (rule depth_step [THEN conjunct2, THEN conjunct2, THEN conjunct2, THEN conjunct2,
        THEN conjunct2, THEN conjunct1, rule_format])

lemma isValidJSON_depth:
  "isValidJSON n data i d v = Some (j, ok, e, d') \<Longrightarrow> depth_kept d ok d'"
proof (induction n data i d v rule: isValidJSON.induct)
  case (1 n data i depth verifier)
  show ?case
  proof (cases "i < length data \<and> \<not> is_ws (data ! i)")
    case False
    with 1 show ?thesis
      by (subst (asm) (2) isValidJSON.simps) (auto split: if_splits simp: depth_kept_def)
  next
    case True
    with "1.prems" obtain i1 ok1 e1 d1
      where x: "validany n data i depth verifier = Some (i1, ok1, e1, d1)"
      by (subst (asm) isValidJSON.simps) (auto split: option.splits)
    have k: "depth_kept depth ok1 d1"
      using x by (rule validany_depth)
    from "1.prems" True x k show ?thesis
      by (subst (asm) isValidJSON.simps)
        (auto split: if_splits dest: isValidJSON_rest_err simp: depth_kept_def)
  qed
qed

section \<open>The top-level loop\<close>

lemma isValidJSON_skip:
  "isValidJSON n data i d v =
     isValidJSON n data (i + length (takeWhile is_ws (drop i data))) d v"
proof (induction n data i d v rule: isValidJSON.induct)
  case (1 n data i depth verifier)
  show ?case
  proof (cases "i < length data")
    case False
    then show ?thesis by simp
  next
    case True
    then have d: "drop i data = data ! i # drop (i + 1) data"
      by (simp add: Cons_nth_drop_Suc)
    show ?thesis
    proof (cases "is_ws (data ! i)")
      case False
      with d show ?thesis by simp
    next
      case ws: True
      have "isValidJSON n data i depth verifier = isValidJSON n data (i + 1) depth verifier"
        using True ws by (subst isValidJSON.simps) simp
      also have "\<dots> = isValidJSON n data
          (i + 1 + length (takeWhile is_ws (drop (i + 1) data))) depth verifier"
        using "1.IH" [OF True ws] .
      finally show ?thesis
        using d ws by simp
    qed
  qed
qed

lemma isValidJSON_rest_ws:
  "fst (snd (isValidJSON_rest data j err d)) \<longleftrightarrow> (\<forall>c \<in> set (drop j data). is_ws c)"
proof (induction data j err d rule: isValidJSON_rest.induct)
  case (1 data i err depth)
  show ?case
  proof (cases "i < length data")
    case False
    then show ?thesis
      by (subst isValidJSON_rest.simps) simp
  next
    case True
    then have d: "drop i data = data ! i # drop (i + 1) data"
      by (simp add: Cons_nth_drop_Suc)
    show ?thesis
    proof (cases "is_ws (data ! i)")
      case False
      with True d show ?thesis
        by (subst isValidJSON_rest.simps) simp
    next
      case ws: True
      with True d "1.IH" [OF True ws] show ?thesis
        by (subst isValidJSON_rest.simps) simp
    qed
  qed
qed

lemma isValidJSON_rest_shape:
  "\<exists>j'. isValidJSON_rest data j err d =
     (j', (\<forall>c \<in> set (drop j data). is_ws c), err, d)"
proof -
  obtain j' ok e d' where r: "isValidJSON_rest data j err d = (j', ok, e, d')"
    by (cases "isValidJSON_rest data j err d") auto
  from isValidJSON_rest_err [OF r] isValidJSON_rest_ws [of data j err d] r
  show ?thesis by simp
qed

lemma isValidJSON_top:
  assumes "i = length (takeWhile is_ws data)"
  shows "isValidJSON n data 0 d v =
     (if i < length data then
        (case validany n data i d v of
           None \<Rightarrow> None
         | Some (j, ok, err, depth) \<Rightarrow>
             if \<not> ok \<or> err \<noteq> None then Some (j, False, err, depth)
             else Some (isValidJSON_rest data j err depth))
      else Some (i, False, None, d))"
proof -
  have s: "isValidJSON n data 0 d v = isValidJSON n data i d v"
    using isValidJSON_skip [of n data 0 d v] assms by simp
  show ?thesis
  proof (cases "i < length data")
    case False
    then show ?thesis
      unfolding s by (subst isValidJSON.simps) simp
  next
    case True
    then have "\<not> is_ws (data ! i)"
      unfolding assms by (rule nth_length_takeWhile)
    with True show ?thesis
      unfolding s by (subst isValidJSON.simps) simp
  qed
qed

section \<open>Counting runes\<close>







section \<open>Nested arrays\<close>

lemma not_ws_bracket [simp]: "\<not> is_ws CHR ''[''" "\<not> is_ws CHR '']''"
  by (simp_all add: is_ws_def)

lemma isValidComma_at_end:
  "i < length data \<Longrightarrow> data ! i = e \<Longrightarrow> \<not> is_ws e \<Longrightarrow> isValidComma data i e = (i, True)"
  by (subst isValidComma.simps) simp

lemmas validator_simps =
  validany.simps validany_loop.simps isValidArray.simps isValidArray_loop.simps
  isValidArray_elems.simps isValidObject.simps isValidObject_loop.simps
  isValidObject_key.simps isValidObject_next.simps







lemma isValidJSON_rest_end:
  "isValidJSON_rest data (length data) err d = (length data, True, err, d)"
  by (subst isValidJSON_rest.simps) simp

section \<open>Arrays and objects of many entries\<close>

lemma is_delim_facts:
  assumes "is_delim c"
  shows "\<not> is_digit c" "c \<noteq> CHR ''.''" "c \<noteq> CHR ''e''" "c \<noteq> CHR ''E''" "\<not> is_ws c"
  using assms by (auto simp: is_delim_def is_digit_def bv_def is_ws_def)

lemma one_facts:
  "is_digit CHR ''1''" "\<not> is_ws CHR ''1''"
  by (simp_all add: is_digit_def bv_def is_ws_def)

lemma isValidComma_at_comma:
  "i < length data \<Longrightarrow> data ! i = CHR '','' \<Longrightarrow> isValidComma data i e = (i, True)"
  by (subst isValidComma.simps) (simp add: is_ws_def)

lemma skip_digits_one:
  assumes "i + 1 < length data" "data ! i = CHR ''1''" "\<not> is_digit (data ! (i + 1))"
  shows "skip_digits data i = i + 1"
proof -
  have "skip_digits data (i + 1) = i + 1"
    using assms(3) by (subst skip_digits.simps) simp
  then show ?thesis
    using assms(1,2) by (subst skip_digits.simps) (simp add: one_facts)
qed

lemma isValidNumber_one:
  assumes "i + 1 < length data" "data ! i = CHR ''1''" "is_delim (data ! (i + 1))"
  shows "isValidNumber data (i + 1) = (i + 1, True)"
proof -
  note d = is_delim_facts [OF assms(3)]
  have s: "skip_digits data i = i + 1"
    using assms(1,2) d(1) by (rule skip_digits_one)
  have e: "isValidNumber_exp data (i + 1) = (i + 1, True)"
    using assms(1) d by (simp add: isValidNumber_exp_def)
  have f: "isValidNumber_frac data (i + 1) = (i + 1, True)"
    using assms(1) d e by (simp add: isValidNumber_frac_def)
  show ?thesis
    using assms(1,2) s f by (simp add: isValidNumber_def)
qed

lemma validany_one:
  assumes "i + 1 < length data" "data ! i = CHR ''1''" "is_delim (data ! (i + 1))"
    and "\<not> jsonContainerDepthEnabled v"
  shows "validany (Suc (Suc n)) data i d v = Some (i + 1, True, None, d)"
proof -
  have "validany_loop (Suc n) data i d v = Some (i + 1, True, None, d)"
    using assms(1,2) isValidNumber_one [OF assms(1,2,3)]
    by (subst validany_loop.simps(2)) (simp add: one_facts)
  then show ?thesis
    using assms(4) by (subst validany.simps(2)) simp
qed

lemma fuel3:
  assumes "r + 3 \<le> n"
  obtains n' where "n = Suc (Suc (Suc n'))" and "r \<le> n'"
proof
  show "n = Suc (Suc (Suc (n - 3)))"
    using assms by simp
  show "r \<le> n - 3"
    using assms by simp
qed

text \<open>One turn of the inner loop of \<^verbatim>\<open>isValidArray\<close> on the element \<^verbatim>\<open>1\<close>.\<close>

lemma elems_step:
  assumes "i + 1 < length data" "data ! i = CHR ''1''"
    and "data ! (i + 1) = CHR '','' \<or> data ! (i + 1) = CHR '']''"
    and "\<not> jsonContainerDepthEnabled v"
  shows "isValidArray_elems (Suc (Suc (Suc n))) data i d v e c =
    (if arrayEntryCountEnabled v \<and> c + 1 > MaxArrayElementCount v
     then Some (i + 1, False,
            Some (limit_error ''maxArrayElementCountReached'' (MaxArrayElementCount v) (c + 1)), d)
     else if data ! (i + 1) = CHR '']'' then Some (i + 2, True, None, d - 1)
     else isValidArray_elems (Suc (Suc n)) data (i + 2) d v None (c + 1))"
proof -
  have dl: "is_delim (data ! (i + 1))"
    using assms(3) by (auto simp: is_delim_def)
  have va: "validany (Suc (Suc n)) data i d v = Some (i + 1, True, None, d)"
    using assms(1,2) dl assms(4) by (rule validany_one)
  have cm: "isValidComma data (i + 1) CHR '']'' = (i + 1, True)"
    using assms(1,3) isValidComma_at_comma [of "i + 1" data "CHR '']''"]
      isValidComma_at_end [of "i + 1" data "CHR '']''"]
    by auto
  show ?thesis
    using assms(1) va cm
    by (subst isValidArray_elems.simps(2)) (simp add: Let_def)
qed

lemma elems_ones_ok:
  assumes "data = pre @ concat (replicate r ''1,'') @ ''1]'' @ post"
    and "\<not> jsonContainerDepthEnabled v"
    and "arrayEntryCountEnabled v \<longrightarrow> c + int r + 1 \<le> MaxArrayElementCount v"
    and "r + 3 \<le> n"
  shows "isValidArray_elems n data (length pre) d v e c =
           Some (length pre + 2 * r + 2, True, None, d - 1)"
  using assms
proof (induction r arbitrary: pre c e n)
  case 0
  from "0.prems"(4) obtain n' where n: "n = Suc (Suc (Suc n'))"
    by (rule fuel3)
  have "isValidArray_elems (Suc (Suc (Suc n'))) data (length pre) d v e c =
      Some (length pre + 2, True, None, d - 1)"
    using "0.prems"(1,2,3)
    by (subst elems_step) (auto simp: nth_append)
  then show ?case
    by (simp add: n)
next
  case (Suc r)
  from Suc.prems(4) obtain n' where n: "n = Suc (Suc (Suc n'))" and n': "Suc r \<le> n'"
    by (rule fuel3)
  have d: "data = (pre @ ''1,'') @ concat (replicate r ''1,'') @ ''1]'' @ post"
    using Suc.prems(1) by simp
  have ih: "isValidArray_elems (Suc (Suc n')) data (length (pre @ ''1,'')) d v None (c + 1) =
      Some (length (pre @ ''1,'') + 2 * r + 2, True, None, d - 1)"
    using d Suc.prems(2)
  proof (rule Suc.IH)
    show "arrayEntryCountEnabled v \<longrightarrow> c + 1 + int r + 1 \<le> MaxArrayElementCount v"
      using Suc.prems(3) by auto
    show "r + 3 \<le> Suc (Suc n')"
      using n' by simp
  qed
  have "isValidArray_elems (Suc (Suc (Suc n'))) data (length pre) d v e c =
      Some (length pre + 2 * Suc r + 2, True, None, d - 1)"
    using Suc.prems(1,2,3) ih
    by (subst elems_step) (auto simp: nth_append)
  then show ?case
    by (simp add: n)
qed

lemma elems_ones_too_many:
  assumes "data = pre @ concat (replicate r ''1,'') @ ''1'' @ [x] @ post"
    and "x = CHR '','' \<or> x = CHR '']''"
    and "\<not> jsonContainerDepthEnabled v"
    and "arrayEntryCountEnabled v"
    and "c + int r = MaxArrayElementCount v"
    and "r + 3 \<le> n"
  shows "isValidArray_elems n data (length pre) d v e c =
           Some (length pre + 2 * r + 1, False,
             Some (limit_error ''maxArrayElementCountReached'' (MaxArrayElementCount v)
                     (MaxArrayElementCount v + 1)), d)"
  using assms
proof (induction r arbitrary: pre c e n)
  case 0
  from "0.prems"(6) obtain n' where n: "n = Suc (Suc (Suc n'))"
    by (rule fuel3)
  have "isValidArray_elems (Suc (Suc (Suc n'))) data (length pre) d v e c =
      Some (length pre + 1, False,
        Some (limit_error ''maxArrayElementCountReached'' (MaxArrayElementCount v)
                (MaxArrayElementCount v + 1)), d)"
    using "0.prems"(1,2,3,4,5)
    by (subst elems_step) (auto simp: nth_append)
  then show ?case
    by (simp add: n)
next
  case (Suc r)
  from Suc.prems(6) obtain n' where n: "n = Suc (Suc (Suc n'))" and n': "Suc r \<le> n'"
    by (rule fuel3)
  have d: "data = (pre @ ''1,'') @ concat (replicate r ''1,'') @ ''1'' @ [x] @ post"
    using Suc.prems(1) by simp
  have ih: "isValidArray_elems (Suc (Suc n')) data (length (pre @ ''1,'')) d v None (c + 1) =
      Some (length (pre @ ''1,'') + 2 * r + 1, False,
        Some (limit_error ''maxArrayElementCountReached'' (MaxArrayElementCount v)
                (MaxArrayElementCount v + 1)), d)"
    using d Suc.prems(2,3,4)
  proof (rule Suc.IH)
    show "c + 1 + int r = MaxArrayElementCount v"
      using Suc.prems(5) by simp
    show "r + 3 \<le> Suc (Suc n')"
      using n' by simp
  qed
  have "isValidArray_elems (Suc (Suc (Suc n'))) data (length pre) d v e c =
      Some (length pre + 2 * Suc r + 1, False,
        Some (limit_error ''maxArrayElementCountReached'' (MaxArrayElementCount v)
                (MaxArrayElementCount v + 1)), d)"
    using Suc.prems(1,3,4,5) ih
    by (subst elems_step) (auto simp: nth_append)
  then show ?case
    by (simp add: n)
qed

lemma key_scan:
  assumes "i + 2 < length data" "data ! (i + 1) = CHR ''a''" "data ! (i + 2) = CHR 0x22"
  shows "isValidateString data (i + 1) = (i + 3, True)"
proof -
  have "isValidateString data (i + 2) = (i + 3, True)"
    using assms(1,3) by (subst isValidateString.simps) (simp add: bv_def)
  then show ?thesis
    using assms(1,2) by (subst isValidateString.simps) (simp add: bv_def)
qed

lemma isValidColon_at:
  "i < length data \<Longrightarrow> data ! i = CHR '':'' \<Longrightarrow> isValidColon data i = (i + 1, True)"
  by (subst isValidColon.simps) (simp add: is_ws_def)

text \<open>The entry counter is incremented and checked as soon as the key is scanned.\<close>

lemma key_counted_first:
  assumes "isValidateString data (i + 1) = (i1, True)"
    and "objectEntryCountEnabled v" "ObjectEntryCount v < c + 1"
  shows "isValidObject_key (Suc n) data i d v e c =
           Some (i1, False,
             Some (limit_error ''maxObjectEntryCountReached'' (ObjectEntryCount v) (c + 1)), d)"
  using assms by (subst isValidObject_key.simps(2)) (simp add: Let_def)

text \<open>One member \<^verbatim>\<open>"a":1\<close> from the label \<^verbatim>\<open>key\<close>.\<close>

lemma key_step:
  assumes "i + 5 < length data" "data ! i = CHR 0x22" "data ! (i + 1) = CHR ''a''"
    and "data ! (i + 2) = CHR 0x22" "data ! (i + 3) = CHR '':''" "data ! (i + 4) = CHR ''1''"
    and "data ! (i + 5) = CHR '','' \<or> data ! (i + 5) = CHR ''}''"
    and "\<not> jsonContainerDepthEnabled v" "\<not> objectKeyLengthEnabled v"
  shows "isValidObject_key (Suc (Suc (Suc n))) data i d v e c =
    (if objectEntryCountEnabled v \<and> ObjectEntryCount v < c + 1
     then Some (i + 3, False,
            Some (limit_error ''maxObjectEntryCountReached'' (ObjectEntryCount v) (c + 1)), d)
     else if data ! (i + 5) = CHR ''}'' then Some (i + 6, True, None, d - 1)
     else isValidObject_next (Suc (Suc n)) data (i + 6) d v None (c + 1))"
proof -
  have ks: "isValidateString data (Suc i) = (i + 3, True)"
    using assms(1,3,4) key_scan [of i data] by simp
  have kl: "validateStringLength data i (i + 3) (objectKeyLengthEnabled v)
      (ObjectKeyLength v) objectKeyValueLength = None"
    using assms(9) by (simp add: validateStringLength_def)
  have co: "isValidColon data (i + 3) = (i + 4, True)"
    using assms(1,5) isValidColon_at [of "i + 3" data] by simp
  have x5: "i + 4 + 1 = i + 5"
    by simp
  have dl: "is_delim (data ! (i + 4 + 1))"
    unfolding x5 is_delim_def using assms(7) by blast
  have va: "validany (Suc (Suc n)) data (i + 4) d v = Some (i + 5, True, None, d)"
    using assms(1,6) dl assms(8) validany_one [of "i + 4" data v n d]
    by (simp add: add.commute)
  have cm: "isValidComma data (i + 5) CHR ''}'' = (i + 5, True)"
    using assms(1,7) isValidComma_at_comma [of "i + 5" data "CHR ''}''"]
      isValidComma_at_end [of "i + 5" data "CHR ''}''"]
    by (auto simp: is_ws_def)
  show ?thesis
    by (subst isValidObject_key.simps(2))
      (simp add: Let_def ks kl co va cm add.commute [of 6 i])
qed

lemma next_step:
  "i < length data \<Longrightarrow> data ! i = CHR 0x22 \<Longrightarrow>
   isValidObject_next (Suc n) data i d v e c = isValidObject_key n data i d v e c"
  by (subst isValidObject_next.simps(2)) (simp add: is_ws_def)

lemma members_hd:
  "(concat (replicate r (member @ '','')) @ member @ rest) ! 0 = CHR 0x22"
  "0 < length (concat (replicate r (member @ '','')) @ member @ rest)"
  by (cases r; simp add: member_def)+

lemma key_members_ok:
  assumes "data = pre @ concat (replicate r (member @ '','')) @ member @ ''}'' @ post"
    and "\<not> jsonContainerDepthEnabled v" "\<not> objectKeyLengthEnabled v"
    and "objectEntryCountEnabled v \<longrightarrow> c + int r + 1 \<le> ObjectEntryCount v"
    and "2 * r + 3 \<le> n"
  shows "isValidObject_key n data (length pre) d v e c =
           Some (length pre + 6 * r + 6, True, None, d - 1)"
  using assms
proof (induction r arbitrary: pre c e n)
  case 0
  from "0.prems"(5) obtain n' where n: "n = Suc (Suc (Suc n'))"
    by (rule fuel3)
  have "isValidObject_key (Suc (Suc (Suc n'))) data (length pre) d v e c =
      Some (length pre + 6, True, None, d - 1)"
    using "0.prems"(1,2,3,4)
    by (subst key_step) (auto simp: nth_append member_def)
  then show ?case
    by (simp add: n)
next
  case (Suc r)
  from Suc.prems(5) obtain n' where n: "n = Suc (Suc (Suc n'))" and n': "2 * Suc r \<le> n'"
    by (rule fuel3)
  let ?pre = "pre @ member @ '',''"
  have l: "length ?pre = length pre + 6"
    by (simp add: member_def)
  have d: "data = ?pre @ concat (replicate r (member @ '','')) @ member @ ''}'' @ post"
    using Suc.prems(1) by simp
  have ih: "isValidObject_key (Suc n') data (length ?pre) d v None (c + 1) =
      Some (length ?pre + 6 * r + 6, True, None, d - 1)"
    using d Suc.prems(2,3)
  proof (rule Suc.IH)
    show "objectEntryCountEnabled v \<longrightarrow> c + 1 + int r + 1 \<le> ObjectEntryCount v"
      using Suc.prems(4) by auto
    show "2 * r + 3 \<le> Suc n'"
      using n' by simp
  qed
  have q0: "data ! (length ?pre + 0) = CHR 0x22"
    by (subst d, subst nth_append_length_plus, rule members_hd(1))
  have q1: "length ?pre < length data"
    by (subst d) (simp add: member_def)
  have q: "length pre + 6 < length data" "data ! (length pre + 6) = CHR 0x22"
    using q0 q1 unfolding l by simp_all
  have ih': "isValidObject_key (Suc n') data (length pre + 6) d v None (c + 1) =
      Some (length pre + 6 * Suc r + 6, True, None, d - 1)"
    using ih unfolding l by simp
  have nx: "isValidObject_next (Suc (Suc n')) data (length pre + 6) d v None (c + 1) =
      Some (length pre + 6 * Suc r + 6, True, None, d - 1)"
    using q ih' by (subst next_step) simp_all
  have "isValidObject_key (Suc (Suc (Suc n'))) data (length pre) d v e c =
      Some (length pre + 6 * Suc r + 6, True, None, d - 1)"
    using Suc.prems(1,2,3,4) nx
    by (subst key_step) (auto simp: nth_append member_def)
  then show ?case
    by (simp add: n)
qed

lemma key_members_too_many:
  assumes "data = pre @ concat (replicate r (member @ '','')) @ member @ [x] @ post"
    and "\<not> jsonContainerDepthEnabled v" "\<not> objectKeyLengthEnabled v"
    and "objectEntryCountEnabled v"
    and "c + int r = ObjectEntryCount v"
    and "2 * r + 3 \<le> n"
  shows "isValidObject_key n data (length pre) d v e c =
           Some (length pre + 6 * r + 3, False,
             Some (limit_error ''maxObjectEntryCountReached'' (ObjectEntryCount v)
                     (ObjectEntryCount v + 1)), d)"
  using assms
proof (induction r arbitrary: pre c e n)
  case 0
  from "0.prems"(6) obtain n' where n: "n = Suc n'"
    by (cases n) auto
  have ks: "isValidateString data (length pre + 1) = (length pre + 3, True)"
    using "0.prems"(1) by (intro key_scan) (simp_all add: member_def nth_append)
  have "isValidObject_key (Suc n') data (length pre) d v e c =
      Some (length pre + 3, False,
        Some (limit_error ''maxObjectEntryCountReached'' (ObjectEntryCount v) (c + 1)), d)"
    using ks "0.prems"(4,5) by (intro key_counted_first) simp_all
  then show ?case
    using "0.prems"(5) by (simp add: n)
next
  case (Suc r)
  from Suc.prems(6) obtain n' where n: "n = Suc (Suc (Suc n'))" and n': "2 * Suc r \<le> n'"
    by (rule fuel3)
  let ?pre = "pre @ member @ '',''"
  have l: "length ?pre = length pre + 6"
    by (simp add: member_def)
  have d: "data = ?pre @ concat (replicate r (member @ '','')) @ member @ [x] @ post"
    using Suc.prems(1) by simp
  have ih: "isValidObject_key (Suc n') data (length ?pre) d v None (c + 1) =
      Some (length ?pre + 6 * r + 3, False,
        Some (limit_error ''maxObjectEntryCountReached'' (ObjectEntryCount v)
                (ObjectEntryCount v + 1)), d)"
    using d Suc.prems(2,3,4)
  proof (rule Suc.IH)
    show "c + 1 + int r = ObjectEntryCount v"
      using Suc.prems(5) by simp
    show "2 * r + 3 \<le> Suc n'"
      using n' by simp
  qed
  have q0: "data ! (length ?pre + 0) = CHR 0x22"
    by (subst d, subst nth_append_length_plus, rule members_hd(1))
  have q1: "length ?pre < length data"
    by (subst d) (simp add: member_def)
  have q: "length pre + 6 < length data" "data ! (length pre + 6) = CHR 0x22"
    using q0 q1 unfolding l by simp_all
  have ih': "isValidObject_key (Suc n') data (length pre + 6) d v None (c + 1) =
      Some (length pre + 6 * Suc r + 3, False,
        Some (limit_error ''maxObjectEntryCountReached'' (ObjectEntryCount v)
                (ObjectEntryCount v + 1)), d)"
    using ih unfolding l by simp
  have nx: "isValidObject_next (Suc (Suc n')) data (length pre + 6) d v None (c + 1) =
      Some (length pre + 6 * Suc r + 3, False,
        Some (limit_error ''maxObjectEntryCountReached'' (ObjectEntryCount v)
                (ObjectEntryCount v + 1)), d)"
    using q ih' by (subst next_step) simp_all
  have "isValidObject_key (Suc (Suc (Suc n'))) data (length pre) d v e c =
      Some (length pre + 6 * Suc r + 3, False,
        Some (limit_error ''maxObjectEntryCountReached'' (ObjectEntryCount v)
                (ObjectEntryCount v + 1)), d)"
    using Suc.prems(1,2,3,4,5) nx
    by (subst key_step) (auto simp: nth_append member_def)
  then show ?case
    by (simp add: n)
qed

lemma fuel4:
  assumes "r + 4 \<le> n"
  obtains n' where "n = Suc (Suc (Suc (Suc n')))" and "r \<le> n'"
proof
  show "n = Suc (Suc (Suc (Suc (n - 4))))"
    using assms by simp
  show "r \<le> n - 4"
    using assms by simp
qed

lemma array_top:
  assumes "1 < length data" "data ! 0 = CHR ''[''" "data ! 1 = CHR ''1''"
    and "\<not> jsonContainerDepthEnabled v"
  shows "validany (Suc (Suc (Suc (Suc n)))) data 0 0 v =
           isValidArray_elems n data 1 1 v None 0"
  using assms by (auto simp: validator_simps one_facts is_ws_def)

lemma object_top:
  assumes "1 < length data" "data ! 0 = CHR ''{''" "data ! 1 = CHR 0x22"
    and "\<not> jsonContainerDepthEnabled v"
  shows "validany (Suc (Suc (Suc (Suc n)))) data 0 0 v =
           isValidObject_key n data 1 1 v None 0"
  using assms by (auto simp: validator_simps is_ws_def)

lemma VerifyBytes_of_value:
  assumes "data \<noteq> []" "\<not> is_ws (data ! 0)"
  shows "validany n data 0 0 v = Some (length data, True, None, d) \<Longrightarrow>
           VerifyBytes n v data = Some (True, None)"
    and "validany n data 0 0 v = Some (j, False, Some e, d) \<Longrightarrow>
           VerifyBytes n v data = Some (False, Some e)"
proof -
  have "takeWhile is_ws data = []"
    using assms by (cases data) simp_all
  then have i: "0 = length (takeWhile is_ws data)"
    by simp
  show "validany n data 0 0 v = Some (length data, True, None, d) \<Longrightarrow>
           VerifyBytes n v data = Some (True, None)"
    using assms(1) isValidJSON_rest_end [of data None d]
    by (simp add: VerifyBytes_def isValidJSON_top [OF i])
  show "validany n data 0 0 v = Some (j, False, Some e, d) \<Longrightarrow>
           VerifyBytes n v data = Some (False, Some e)"
    using assms(1) by (simp add: VerifyBytes_def isValidJSON_top [OF i])
qed

lemma ones_hd:
  "(concat (replicate r ''1,'') @ CHR ''1'' # rest) ! 0 = CHR ''1''"
  by (cases r) simp_all

lemma array_of_ones_ok:
  assumes "r + 7 \<le> n" "int (Suc r) \<le> m"
  shows "VerifyBytes n (only_array_limit m) (array_of_ones (Suc r)) = Some (True, None)"
proof -
  let ?data = "array_of_ones (Suc r)"
  let ?v = "only_array_limit m"
  from assms(1) obtain n' where n: "n = Suc (Suc (Suc (Suc n')))" and n': "r + 3 \<le> n'"
    using fuel4 [of "r + 3" n] by auto
  have len: "length ?data = 2 * r + 3"
    by (simp add: array_of_ones_def length_concat sum_list_replicate)
  have nd: "\<not> jsonContainerDepthEnabled ?v"
    by (simp add: only_array_limit_def Verify0_def)
  have h0: "?data ! 0 = CHR ''[''"
    by (simp add: array_of_ones_def)
  have h1: "?data ! 1 = CHR ''1''"
    using ones_hd [of r "'']''"] by (simp add: array_of_ones_def)
  have "isValidArray_elems n' ?data (length ''['') 1 ?v None 0 =
      Some (length ''['' + 2 * r + 2, True, None, 1 - 1)"
  proof (rule elems_ones_ok [where post = "[]"])
    show "?data = ''['' @ concat (replicate r ''1,'') @ ''1]'' @ []"
      by (simp add: array_of_ones_def)
    show "\<not> jsonContainerDepthEnabled ?v"
      using nd .
    show "arrayEntryCountEnabled ?v \<longrightarrow> 0 + int r + 1 \<le> MaxArrayElementCount ?v"
      using assms(2) by (simp add: only_array_limit_def)
    show "r + 3 \<le> n'"
      using n' .
  qed
  then have "validany n ?data 0 0 ?v = Some (length ?data, True, None, 0)"
    using len h0 h1 nd unfolding n by (subst array_top) simp_all
  then show ?thesis
    using h0 len by (intro VerifyBytes_of_value(1)) auto
qed

lemma array_of_ones_too_many:
  assumes "m + 7 \<le> n"
  shows "VerifyBytes n (only_array_limit (int m)) (array_of_ones (Suc m)) =
    Some (False, Some (limit_error ''maxArrayElementCountReached'' (int m) (int m + 1)))"
proof -
  let ?data = "array_of_ones (Suc m)"
  let ?v = "only_array_limit (int m)"
  from assms(1) obtain n' where n: "n = Suc (Suc (Suc (Suc n')))" and n': "m + 3 \<le> n'"
    using fuel4 [of "m + 3" n] by auto
  have len: "length ?data = 2 * m + 3"
    by (simp add: array_of_ones_def length_concat sum_list_replicate)
  have nd: "\<not> jsonContainerDepthEnabled ?v"
    by (simp add: only_array_limit_def Verify0_def)
  have h0: "?data ! 0 = CHR ''[''"
    by (simp add: array_of_ones_def)
  have h1: "?data ! 1 = CHR ''1''"
    using ones_hd [of m "'']''"] by (simp add: array_of_ones_def)
  have "isValidArray_elems n' ?data (length ''['') 1 ?v None 0 =
      Some (length ''['' + 2 * m + 1, False,
        Some (limit_error ''maxArrayElementCountReached'' (MaxArrayElementCount ?v)
                (MaxArrayElementCount ?v + 1)), 1)"
  proof (rule elems_ones_too_many [where post = "[]" and x = "CHR '']''"])
    show "?data = ''['' @ concat (replicate m ''1,'') @ ''1'' @ [CHR '']''] @ []"
      by (simp add: array_of_ones_def)
    show "CHR '']'' = CHR '','' \<or> CHR '']'' = CHR '']''"
      by simp
    show "\<not> jsonContainerDepthEnabled ?v"
      using nd .
    show "arrayEntryCountEnabled ?v"
      by (simp add: only_array_limit_def)
    show "0 + int m = MaxArrayElementCount ?v"
      by (simp add: only_array_limit_def)
    show "m + 3 \<le> n'"
      using n' .
  qed
  then have "validany n ?data 0 0 ?v =
      Some (2 * m + 2, False,
        Some (limit_error ''maxArrayElementCountReached'' (int m) (int m + 1)), 1)"
    using len h0 h1 nd unfolding n
    by (subst array_top) (simp_all add: only_array_limit_def)
  then show ?thesis
    using h0 len by (intro VerifyBytes_of_value(2)) auto
qed

lemma object_of_members_ok:
  assumes "2 * r + 7 \<le> n" "int (Suc r) \<le> m"
  shows "VerifyBytes n (only_entry_limit m) (object_of_members (Suc r)) = Some (True, None)"
proof -
  let ?data = "object_of_members (Suc r)"
  let ?v = "only_entry_limit m"
  from assms(1) obtain n' where n: "n = Suc (Suc (Suc (Suc n')))" and n': "2 * r + 3 \<le> n'"
    using fuel4 [of "2 * r + 3" n] by auto
  have len: "length ?data = 6 * r + 7"
    by (simp add: object_of_members_def member_def length_concat sum_list_replicate)
  have nd: "\<not> jsonContainerDepthEnabled ?v" "\<not> objectKeyLengthEnabled ?v"
    by (simp_all add: only_entry_limit_def Verify0_def)
  have h0: "?data ! 0 = CHR ''{''"
    by (simp add: object_of_members_def)
  have h1: "?data ! 1 = CHR 0x22"
    using members_hd(1) [of r "''}''"] by (simp add: object_of_members_def)
  have "isValidObject_key n' ?data (length ''{'') 1 ?v None 0 =
      Some (length ''{'' + 6 * r + 6, True, None, 1 - 1)"
  proof (rule key_members_ok [where post = "[]"])
    show "?data = ''{'' @ concat (replicate r (member @ '','')) @ member @ ''}'' @ []"
      by (simp add: object_of_members_def)
    show "\<not> jsonContainerDepthEnabled ?v" "\<not> objectKeyLengthEnabled ?v"
      using nd .
    show "objectEntryCountEnabled ?v \<longrightarrow> 0 + int r + 1 \<le> ObjectEntryCount ?v"
      using assms(2) by (simp add: only_entry_limit_def)
    show "2 * r + 3 \<le> n'"
      using n' .
  qed
  then have "validany n ?data 0 0 ?v = Some (length ?data, True, None, 0)"
    using len h0 h1 nd unfolding n by (subst object_top) simp_all
  then show ?thesis
    using h0 len by (intro VerifyBytes_of_value(1)) (auto simp: is_ws_def)
qed

lemma object_of_members_too_many:
  assumes "2 * m + 7 \<le> n"
  shows "VerifyBytes n (only_entry_limit (int m)) (object_of_members (Suc m)) =
    Some (False, Some (limit_error ''maxObjectEntryCountReached'' (int m) (int m + 1)))"
proof -
  let ?data = "object_of_members (Suc m)"
  let ?v = "only_entry_limit (int m)"
  from assms(1) obtain n' where n: "n = Suc (Suc (Suc (Suc n')))" and n': "2 * m + 3 \<le> n'"
    using fuel4 [of "2 * m + 3" n] by auto
  have len: "length ?data = 6 * m + 7"
    by (simp add: object_of_members_def member_def length_concat sum_list_replicate)
  have nd: "\<not> jsonContainerDepthEnabled ?v" "\<not> objectKeyLengthEnabled ?v"
    by (simp_all add: only_entry_limit_def Verify0_def)
  have h0: "?data ! 0 = CHR ''{''"
    by (simp add: object_of_members_def)
  have h1: "?data ! 1 = CHR 0x22"
    using members_hd(1) [of m "''}''"] by (simp add: object_of_members_def)
  have "isValidObject_key n' ?data (length ''{'') 1 ?v None 0 =
      Some (length ''{'' + 6 * m + 3, False,
        Some (limit_error ''maxObjectEntryCountReached'' (ObjectEntryCount ?v)
                (ObjectEntryCount ?v + 1)), 1)"
  proof (rule key_members_too_many [where post = "[]" and x = "CHR ''}''"])
    show "?data = ''{'' @ concat (replicate m (member @ '','')) @ member @ [CHR ''}''] @ []"
      by (simp add: object_of_members_def)
    show "\<not> jsonContainerDepthEnabled ?v" "\<not> objectKeyLengthEnabled ?v"
      using nd .
    show "objectEntryCountEnabled ?v"
      by (simp add: only_entry_limit_def)
    show "0 + int m = ObjectEntryCount ?v"
      by (simp add: only_entry_limit_def)
    show "2 * m + 3 \<le> n'"
      using n' .
  qed
  then have "validany n ?data 0 0 ?v =
      Some (6 * m + 4, False,
        Some (limit_error ''maxObjectEntryCountReached'' (int m) (int m + 1)), 1)"
    using len h0 h1 nd unfolding n
    by (subst object_top) (simp_all add: only_entry_limit_def)
  then show ?thesis
    using h0 len by (intro VerifyBytes_of_value(2)) (auto simp: is_ws_def)
qed

section \<open>A document of one string\<close>



section \<open>Enough fuel gives a result\<close>

text \<open>
  The scanners never move the cursor back, and every call chain of the validators that
  does not move it forward is at most five calls long. So with five units of fuel for each
  byte of the buffer (and seven more) the validators return: the fuel only stands for the
  call stack of the Go program.
\<close>

lemma good_Some [simp]: "good i (Some (j, ok, e, d)) \<longleftrightarrow> (ok \<longrightarrow> i \<le> j)"
  by (simp add: good_def)

lemma good_mono: "good i' r \<Longrightarrow> i \<le> i' \<Longrightarrow> good i r"
  by (auto simp: good_def)

lemma skip_digits_ge: "i \<le> skip_digits data i"
proof (induction data i rule: skip_digits.induct)
  case (1 data i)
  then show ?case
    by (subst skip_digits.simps) (auto dest: Suc_leD)
qed

lemma isValidateString_ge: "i \<le> fst (isValidateString data i)"
proof (induction "length data - i" arbitrary: i rule: less_induct)
  case less
  have step: "i \<le> fst (isValidateString data m)" if "i < m" for m
  proof (cases "m < length data")
    case True
    then have "m \<le> fst (isValidateString data m)"
      using that by (intro less) simp
    then show ?thesis
      using that by simp
  next
    case False
    then show ?thesis
      using that by (subst isValidateString.simps) simp
  qed
  obtain h hk where hx: "hex4 data (i + 1) 0 = (h, hk)"
    by (cases "hex4 data (i + 1) 0") auto
  have hg: "i + 1 \<le> h"
    using hex4_ge [of "i + 1" data 0] hx by simp
  show ?case
    using hx hg step [of "i + 1"] step [of "i + 2"] step [of "h + 1"]
    by (subst isValidateString.simps) (auto simp: Let_def split: bool.split)
qed

lemma isValidComma_ge: "i \<le> fst (isValidComma data i e)"
proof (induction data i e rule: isValidComma.induct)
  case (1 data i e)
  then show ?case
    by (subst isValidComma.simps) (auto dest: Suc_leD)
qed

lemma isValidComma_lt: "snd (isValidComma data i e) \<Longrightarrow> fst (isValidComma data i e) < length data"
proof (induction data i e rule: isValidComma.induct)
  case (1 data i e)
  from "1.prems" show ?case
    by (subst (asm) isValidComma.simps, subst isValidComma.simps)
      (auto split: if_splits dest: "1.IH")
qed

lemma isValidColon_ge: "i \<le> fst (isValidColon data i)"
proof (induction data i rule: isValidColon.induct)
  case (1 data i)
  then show ?case
    by (subst isValidColon.simps) (auto dest: Suc_leD)
qed

lemma isValidColon_le: "snd (isValidColon data i) \<Longrightarrow> fst (isValidColon data i) \<le> length data"
proof (induction data i rule: isValidColon.induct)
  case (1 data i)
  from "1.prems" show ?case
    by (subst (asm) isValidColon.simps, subst isValidColon.simps)
      (auto split: if_splits dest: "1.IH")
qed

lemma skip_digits_ge': "k \<le> m \<Longrightarrow> k \<le> skip_digits data m"
  using skip_digits_ge [of m data] by simp

lemma isValidNumber_exp_ge: "k \<le> m \<Longrightarrow> k \<le> fst (isValidNumber_exp data m)"
  by (auto simp: isValidNumber_exp_def Let_def intro!: skip_digits_ge')

lemma isValidNumber_frac_ge: "k \<le> m \<Longrightarrow> k \<le> fst (isValidNumber_frac data m)"
  by (auto simp: isValidNumber_frac_def Let_def intro!: isValidNumber_exp_ge skip_digits_ge')

lemma isValidNumber_ge: "i \<le> fst (isValidNumber data (i + 1))"
  by (auto simp: isValidNumber_def Let_def intro!: isValidNumber_frac_ge skip_digits_ge')

lemma literal_ge:
  "i \<le> fst (isValidTrue data (i + 1))" "i \<le> fst (isValidNull data (i + 1))"
  by (simp_all add: isValidTrue_def isValidNull_def)

lemma fuel_for_Suc: "i \<le> length data \<Longrightarrow> fuel_for data i = fuel_for data (Suc i) + 5"
  by (simp add: fuel_for_def Suc_diff_le)

lemma fuel_for_mono: "i \<le> i' \<Longrightarrow> fuel_for data i' \<le> fuel_for data i"
  by (simp add: fuel_for_def)

lemma fuel_for_less: "i < i' \<Longrightarrow> i' \<le> length data \<Longrightarrow> fuel_for data i' + 5 \<le> fuel_for data i"
  using fuel_for_mono [of "Suc i" i' data] fuel_for_Suc [of i data] by simp

lemma total_elems_case:
  assumes IH1: "\<And>i d. i \<le> length data \<Longrightarrow> fuel_for data i + 2 \<le> n \<Longrightarrow>
      good i (validany n data i d v)"
    and IH4: "\<And>i d e. i \<le> length data + 1 \<Longrightarrow> fuel_for data i + 4 \<le> n \<Longrightarrow>
      good i (isValidArray_loop n data i d v e)"
    and IH5: "\<And>i d e c. i \<le> length data \<Longrightarrow> fuel_for data i + 3 \<le> n \<Longrightarrow>
      good i (isValidArray_elems n data i d v e c)"
    and i: "i \<le> length data" and n: "fuel_for data i + 3 \<le> Suc n"
  shows "good i (isValidArray_elems (Suc n) data i d v e c)"
proof (cases "i < length data")
  case False
  then have il: "i = length data"
    using i by simp
  have "good (i + 1) (isValidArray_loop n data (i + 1) d v e)"
    using n il by (intro IH4) (simp_all add: fuel_for_def)
  then have "good i (isValidArray_loop n data (i + 1) d v e)"
    by (rule good_mono) simp
  then show ?thesis
    using False by (subst isValidArray_elems.simps(2)) simp
next
  case True
  have fi: "fuel_for data i = fuel_for data (Suc i) + 5"
    using i by (rule fuel_for_Suc)
  have "good i (validany n data i d v)"
    using i n by (intro IH1) simp_all
  then obtain j1 ok1 e1 d1 where va: "validany n data i d v = Some (j1, ok1, e1, d1)"
    and j1: "ok1 \<longrightarrow> i \<le> j1"
    by (auto simp: good_def)
  obtain i2 ok2 where cm: "isValidComma data j1 CHR '']'' = (i2, ok2)"
    by (cases "isValidComma data j1 CHR '']''") auto
  have i2: "j1 \<le> i2" "ok2 \<longrightarrow> i2 < length data"
    using isValidComma_ge [of j1 data "CHR '']''"] isValidComma_lt [of data j1 "CHR '']''"] cm
    by simp_all
  have rec: "good i (isValidArray_elems n data (i2 + 1) d1 v e1 (c + 1))" if "ok1" "ok2"
  proof -
    have lt: "i < i2 + 1" "i2 + 1 \<le> length data"
      using that j1 i2 by simp_all
    have "fuel_for data (i2 + 1) + 5 \<le> fuel_for data i"
      using lt by (rule fuel_for_less)
    then have "good (i2 + 1) (isValidArray_elems n data (i2 + 1) d1 v e1 (c + 1))"
      using lt n by (intro IH5) simp_all
    then show ?thesis
      by (rule good_mono) (use lt in simp)
  qed
  show ?thesis
  proof (cases "ok1 \<and> ok2")
    case False
    then show ?thesis
      using True va cm by (subst isValidArray_elems.simps(2)) (auto simp: Let_def)
  next
    case ok: True
    have nx: "good i (Some (i2 + 1, True, e1, d1 - 1))"
      using ok j1 i2 by simp
    show ?thesis
      using True va cm ok rec nx by (subst isValidArray_elems.simps(2)) (simp add: Let_def)
  qed
qed

lemma total_key_case:
  assumes IH1: "\<And>i d. i \<le> length data \<Longrightarrow> fuel_for data i + 2 \<le> n \<Longrightarrow>
      good i (validany n data i d v)"
    and IH9: "\<And>i d e c. i \<le> length data \<Longrightarrow> fuel_for data i + 2 \<le> n \<Longrightarrow>
      good i (isValidObject_next n data i d v e c)"
    and i: "i \<le> length data" and n: "fuel_for data i + 1 \<le> Suc n"
  shows "good i (isValidObject_key (Suc n) data i d v e c)"
proof -
  obtain i1 ok1 where s: "isValidateString data (i + 1) = (i1, ok1)"
    by (cases "isValidateString data (i + 1)") auto
  have i1: "i + 1 \<le> i1"
    using isValidateString_ge [of "i + 1" data] s by simp
  obtain i2 ok2 where co: "isValidColon data i1 = (i2, ok2)"
    by (cases "isValidColon data i1") auto
  have i2: "i1 \<le> i2" "ok2 \<longrightarrow> i2 \<le> length data"
    using isValidColon_ge [of i1 data] isValidColon_le [of data i1] co by simp_all
  show ?thesis
  proof (cases "ok2")
    case False
    then show ?thesis
      using s co by (subst isValidObject_key.simps(2)) (simp add: Let_def)
  next
    case True
    have lt: "i < i2" "i2 \<le> length data"
      using True i1 i2 by simp_all
    have f2: "fuel_for data i2 + 5 \<le> fuel_for data i"
      using lt by (rule fuel_for_less)
    have "good i2 (validany n data i2 d v)"
      using lt f2 n by (intro IH1) simp_all
    then obtain j3 ok3 e3 d3 where va: "validany n data i2 d v = Some (j3, ok3, e3, d3)"
      and j3: "ok3 \<longrightarrow> i2 \<le> j3"
      by (auto simp: good_def)
    obtain i4 ok4 where cm: "isValidComma data j3 CHR ''}'' = (i4, ok4)"
      by (cases "isValidComma data j3 CHR ''}''") auto
    have i4: "j3 \<le> i4" "ok4 \<longrightarrow> i4 < length data"
      using isValidComma_ge [of j3 data "CHR ''}''"] isValidComma_lt [of data j3 "CHR ''}''"] cm
      by simp_all
    show ?thesis
    proof (cases "ok3 \<and> ok4")
      case False
      then show ?thesis
        using s co va cm by (subst isValidObject_key.simps(2)) (auto simp: Let_def)
    next
      case ok: True
      have l4: "i < i4 + 1" "i4 + 1 \<le> length data"
        using ok j3 i4 lt by simp_all
      have "fuel_for data (i4 + 1) + 5 \<le> fuel_for data i"
        using l4 by (rule fuel_for_less)
      then have "good (i4 + 1) (isValidObject_next n data (i4 + 1) d3 v e' (c + 1))" for e'
        using l4 n by (intro IH9) simp_all
      then have rec: "good i (isValidObject_next n data (i4 + 1) d3 v e' (c + 1))" for e'
        by (rule good_mono) (use l4 in simp)
      have nx: "good i (Some (i4 + 1, True, e3, d3 - 1))"
        using l4 by simp
      show ?thesis
        using s co va cm ok rec nx True
        by (subst isValidObject_key.simps(2)) (simp add: Let_def)
    qed
  qed
qed

lemma total_step:
  "(\<forall>i d. i \<le> length data \<longrightarrow> fuel_for data i + 2 \<le> n \<longrightarrow> good i (validany n data i d v)) \<and>
   (\<forall>i d. i \<le> length data \<longrightarrow> fuel_for data i + 1 \<le> n \<longrightarrow> good i (validany_loop n data i d v)) \<and>
   (\<forall>i d. i \<le> length data \<longrightarrow> fuel_for data i + 5 \<le> n \<longrightarrow> good i (isValidArray n data i d v)) \<and>
   (\<forall>i d e. i \<le> length data + 1 \<longrightarrow> fuel_for data i + 4 \<le> n \<longrightarrow> good i (isValidArray_loop n data i d v e)) \<and>
   (\<forall>i d e c. i \<le> length data \<longrightarrow> fuel_for data i + 3 \<le> n \<longrightarrow> good i (isValidArray_elems n data i d v e c)) \<and>
   (\<forall>i d. i \<le> length data \<longrightarrow> fuel_for data i + 3 \<le> n \<longrightarrow> good i (isValidObject n data i d v)) \<and>
   (\<forall>i d. i \<le> length data \<longrightarrow> fuel_for data i + 2 \<le> n \<longrightarrow> good i (isValidObject_loop n data i d v)) \<and>
   (\<forall>i d e c. i \<le> length data \<longrightarrow> fuel_for data i + 1 \<le> n \<longrightarrow> good i (isValidObject_key n data i d v e c)) \<and>
   (\<forall>i d e c. i \<le> length data \<longrightarrow> fuel_for data i + 2 \<le> n \<longrightarrow> good i (isValidObject_next n data i d v e c))"
proof (induction n)
  case 0
  show ?case
    by (simp add: fuel_for_def)
next
  case (Suc n)
  note IH1 = Suc.IH[THEN conjunct1, rule_format]
  note IH2 = Suc.IH[THEN conjunct2, THEN conjunct1, rule_format]
  note IH3 = Suc.IH[THEN conjunct2, THEN conjunct2, THEN conjunct1, rule_format]
  note IH4 = Suc.IH[THEN conjunct2, THEN conjunct2, THEN conjunct2, THEN conjunct1, rule_format]
  note IH5 = Suc.IH[THEN conjunct2, THEN conjunct2, THEN conjunct2, THEN conjunct2, THEN conjunct1, rule_format]
  note IH6 = Suc.IH[THEN conjunct2, THEN conjunct2, THEN conjunct2, THEN conjunct2, THEN conjunct2, THEN conjunct1, rule_format]
  note IH7 = Suc.IH[THEN conjunct2, THEN conjunct2, THEN conjunct2, THEN conjunct2, THEN conjunct2, THEN conjunct2, THEN conjunct1, rule_format]
  note IH8 = Suc.IH[THEN conjunct2, THEN conjunct2, THEN conjunct2, THEN conjunct2, THEN conjunct2, THEN conjunct2, THEN conjunct2, THEN conjunct1, rule_format]
  note IH9 = Suc.IH[THEN conjunct2, THEN conjunct2, THEN conjunct2, THEN conjunct2, THEN conjunct2, THEN conjunct2, THEN conjunct2, THEN conjunct2, rule_format]
  have 1: "good i (validany (Suc n) data i d v)"
    if "i \<le> length data" "fuel_for data i + 2 \<le> Suc n" for i d
    using that by (subst validany.simps(2)) (simp add: IH2)
  have 2: "good i (validany_loop (Suc n) data i d v)"
    if i: "i \<le> length data" and n: "fuel_for data i + 1 \<le> Suc n" for i d
  proof (cases "i < length data")
    case False
    then show ?thesis
      by (subst validany_loop.simps(2)) simp
  next
    case True
    have f: "fuel_for data i = fuel_for data (Suc i) + 5"
      using i by (rule fuel_for_Suc)
    have "good (Suc i) (validany_loop n data (Suc i) d v)"
      using True f n by (intro IH2) simp_all
    then have r2: "good i (validany_loop n data (Suc i) d v)"
      by (rule good_mono) simp
    have "good (Suc i) (isValidObject n data (Suc i) d' v)" for d'
      using True f n by (intro IH6) simp_all
    then have r6: "good i (isValidObject n data (Suc i) d' v)" for d'
      by (rule good_mono) simp
    have "good (Suc i) (isValidArray n data (Suc i) d' v)" for d'
      using True f n by (intro IH3) simp_all
    then have r3: "good i (isValidArray n data (Suc i) d' v)" for d'
      by (rule good_mono) simp
    have s: "i \<le> fst (isValidateString data (Suc i))"
      using isValidateString_ge [of "Suc i" data] by simp
    have nu: "i \<le> fst (isValidNumber data (Suc i))"
      using isValidNumber_ge [of i data] by simp
    show ?thesis
      using True r2 r6 r3 s nu literal_ge [of i data]
      by (subst validany_loop.simps(2)) (auto simp: Let_def split: prod.split)
  qed
  have 3: "good i (isValidArray (Suc n) data i d v)"
    if "i \<le> length data" "fuel_for data i + 5 \<le> Suc n" for i d
    using that by (subst isValidArray.simps(2)) (simp add: IH4)
  have 4: "good i (isValidArray_loop (Suc n) data i d v e)"
    if i: "i \<le> length data + 1" and n: "fuel_for data i + 4 \<le> Suc n" for i d e
  proof (cases "i < length data")
    case False
    then show ?thesis
      by (subst isValidArray_loop.simps(2)) simp
  next
    case True
    have f: "fuel_for data i = fuel_for data (Suc i) + 5"
      using True by (intro fuel_for_Suc) simp
    have "good (Suc i) (isValidArray_loop n data (Suc i) d v e)"
      using True f n by (intro IH4) simp_all
    then have r4: "good i (isValidArray_loop n data (Suc i) d v e)"
      by (rule good_mono) simp
    have r5: "good i (isValidArray_elems n data i d v e 0)"
      using True n by (intro IH5) simp_all
    show ?thesis
      using True r4 r5 by (subst isValidArray_loop.simps(2)) simp
  qed
  have 5: "good i (isValidArray_elems (Suc n) data i d v e c)"
    if "i \<le> length data" "fuel_for data i + 3 \<le> Suc n" for i d e c
    using IH1 IH4 IH5 that by (rule total_elems_case)
  have 6: "good i (isValidObject (Suc n) data i d v)"
    if "i \<le> length data" "fuel_for data i + 3 \<le> Suc n" for i d
    using that by (subst isValidObject.simps(2)) (simp add: IH7)
  have 7: "good i (isValidObject_loop (Suc n) data i d v)"
    if i: "i \<le> length data" and n: "fuel_for data i + 2 \<le> Suc n" for i d
  proof (cases "i < length data")
    case False
    then show ?thesis
      by (subst isValidObject_loop.simps(2)) simp
  next
    case True
    have f: "fuel_for data i = fuel_for data (Suc i) + 5"
      using i by (rule fuel_for_Suc)
    have "good (Suc i) (isValidObject_loop n data (Suc i) d v)"
      using True f n by (intro IH7) simp_all
    then have r7: "good i (isValidObject_loop n data (Suc i) d v)"
      by (rule good_mono) simp
    have r8: "good i (isValidObject_key n data i d v None 0)"
      using True n by (intro IH8) simp_all
    show ?thesis
      using True r7 r8 by (subst isValidObject_loop.simps(2)) simp
  qed
  have 8: "good i (isValidObject_key (Suc n) data i d v e c)"
    if "i \<le> length data" "fuel_for data i + 1 \<le> Suc n" for i d e c
    using IH1 IH9 that by (rule total_key_case)
  have 9: "good i (isValidObject_next (Suc n) data i d v e c)"
    if i: "i \<le> length data" and n: "fuel_for data i + 2 \<le> Suc n" for i d e c
  proof (cases "i < length data")
    case False
    then show ?thesis
      by (subst isValidObject_next.simps(2)) simp
  next
    case True
    have f: "fuel_for data i = fuel_for data (Suc i) + 5"
      using i by (rule fuel_for_Suc)
    have "good (Suc i) (isValidObject_next n data (Suc i) d v e c)"
      using True f n by (intro IH9) simp_all
    then have r9: "good i (isValidObject_next n data (Suc i) d v e c)"
      by (rule good_mono) simp
    have r8: "good i (isValidObject_key n data i d v e c)"
      using True n by (intro IH8) simp_all
    show ?thesis
      using True r9 r8 by (subst isValidObject_next.simps(2)) simp
  qed
  show ?case
    by (intro conjI allI impI) (erule 1 2 3 4 5 6 7 8 9 | assumption)+
qed

lemma validany_total:
  assumes "i \<le> length data" and "5 * (length data + 1 - i) + 2 \<le> n"
  shows "good i (validany n data i d v)"
  using total_step [of data n v] assms by (simp add: fuel_for_def)

lemma isValidJSON_total:
  assumes "5 * length data + 7 \<le> n"
  shows "isValidJSON n data i d v \<noteq> None"
  using assms
proof (induction n data i d v rule: isValidJSON.induct)
  case (1 n data i depth verifier)
  show ?case
  proof (cases "i < length data")
    case False
    then show ?thesis
      by (subst isValidJSON.simps) simp
  next
    case True
    have "good i (validany n data i depth verifier)"
      using True "1.prems" by (intro validany_total) simp_all
    then obtain j ok e d' where va: "validany n data i depth verifier = Some (j, ok, e, d')"
      by (auto simp: good_def)
    show ?thesis
      using True "1.IH" "1.prems" va
      by (subst isValidJSON.simps) (simp del: not_None_eq split_paired_Ex)
  qed
qed

lemma VerifyBytes_total:
  assumes "5 * length json + 7 \<le> n"
  shows "\<exists>ok err. VerifyBytes n v json = Some (ok, err)"
  using isValidJSON_total [OF assms, of 0 0 v]
  by (auto simp: VerifyBytes_def split: option.splits)

section \<open>Claims\<close>

text \<open>
  C1. Whenever \<^verbatim>\<open>VerifyBytes\<close> returns \<open>valid = true\<close> the returned error is \<^verbatim>\<open>nil\<close>: the
  pair (true, non-nil error) never occurs, for every buffer, configuration and amount of
  fuel; and with fuel of at least five times the length of the buffer plus seven,
  \<^verbatim>\<open>VerifyBytes\<close> does return. (\<^verbatim>\<open>VerifyString\<close> is \<^verbatim>\<open>VerifyBytes\<close> on the bytes of the
  string.)
\<close>

theorem valid_implies_nil_error:
  "(VerifyBytes n v json = Some (True, e) \<longrightarrow> e = None) \<and>
   (5 * length json + 7 \<le> n \<longrightarrow>
      (\<exists>ok err. VerifyBytes n v json = Some (ok, err) \<and> (ok \<longrightarrow> err = None)))"
proof -
  have nil: "e = None" if "VerifyBytes n v json = Some (True, e)" for e
    using that unfolding VerifyBytes_def
    by (auto split: option.splits if_splits dest: isValidJSON_ok_nil)
  have "\<exists>ok err. VerifyBytes n v json = Some (ok, err) \<and> (ok \<longrightarrow> err = None)"
    if fuel: "5 * length json + 7 \<le> n"
  proof -
    obtain ok err where r: "VerifyBytes n v json = Some (ok, err)"
      using VerifyBytes_total [OF fuel] by blast
    then show ?thesis
      using nil by auto
  qed
  then show ?thesis
    using nil by blast
qed

theorem valid_implies_nil_error_witness:
  "VerifyBytes 27 Verify0 ''true'' = Some (True, None) \<and> (None :: error) = None"
proof -
  have h: "VerifyBytes 27 Verify0 ''true'' = Some (True, None)"
    by code_simp
  show ?thesis
    using valid_implies_nil_error [of 27 Verify0 "''true''" None] h by simp
qed

text \<open>
  C10. For the empty buffer and for every buffer of whitespace bytes only (space, tab,
  newline, carriage return), \<^verbatim>\<open>VerifyBytes\<close> returns \<open>(false, ErrInvalidJSON)\<close>, for every
  configuration (and with any fuel: no value is scanned).
\<close>

theorem whitespace_only_is_malformed:
  "\<forall>c \<in> set json. is_ws c \<Longrightarrow> VerifyBytes n v json = Some (False, Some ErrInvalidJSON)"
proof -
  assume a: "\<forall>c \<in> set json. is_ws c"
  have "isValidJSON n json 0 0 v = Some (max 0 (length json), False, None, 0)"
    by (rule isValidJSON_ws) (use a in simp)
  then show ?thesis
    by (simp add: VerifyBytes_def)
qed

theorem whitespace_only_is_malformed_witness:
  "VerifyBytes 0 Verify0 [CHR '' '', CHR 0x09, CHR 0x0A, CHR 0x0D] = Some (False, Some ErrInvalidJSON) \<and>
   VerifyBytes 0 Verify0 [] = Some (False, Some ErrInvalidJSON)"
  using whitespace_only_is_malformed [of "[CHR '' '', CHR 0x09, CHR 0x0A, CHR 0x0D]" 0 Verify0]
    whitespace_only_is_malformed [of "[]" 0 Verify0]
  by (simp add: is_ws_def)


text \<open>
  C2. The claim: each of the literals \<^verbatim>\<open>true\<close>, \<^verbatim>\<open>false\<close>, \<^verbatim>\<open>null\<close> alone is accepted, and
  likewise as an array element. The code accepts \<^verbatim>\<open>true\<close> and \<^verbatim>\<open>null\<close> but rejects
  \<^verbatim>\<open>false\<close>: the case \<^verbatim>\<open>'f'\<close> of \<^verbatim>\<open>validany\<close> has no \<^verbatim>\<open>return\<close>, so the scan goes on at
  the byte \<^verbatim>\<open>a\<close> and fails there.
\<close>

theorem false_literal_rejected:
  "VerifyBytes (n + 20) Verify0 ''true'' = Some (True, None) \<and>
   VerifyBytes (n + 20) Verify0 ''null'' = Some (True, None) \<and>
   VerifyBytes (n + 20) Verify0 ''false'' = Some (False, Some ErrInvalidJSON) \<and>
   VerifyBytes (n + 20) Verify0 ''[false]'' = Some (False, Some ErrInvalidJSON) \<and>
   VerifyBytes (n + 20) Verify0 ''[true]'' = Some (True, None)"
proof -
  have "VerifyBytes 20 Verify0 ''true'' = Some (True, None)"
    by code_simp
  moreover have "VerifyBytes 20 Verify0 ''null'' = Some (True, None)"
    by code_simp
  moreover have "VerifyBytes 20 Verify0 ''false'' = Some (False, Some ErrInvalidJSON)"
    by code_simp
  moreover have "VerifyBytes 20 Verify0 ''[false]'' = Some (False, Some ErrInvalidJSON)"
    by code_simp
  moreover have "VerifyBytes 20 Verify0 ''[true]'' = Some (True, None)"
    by code_simp
  ultimately show ?thesis
    by (simp only: VerifyBytes_fuel_add)
qed


text \<open>
  C7. The claim: a \<^verbatim>\<open>-\<close> not followed by a digit makes the validation fail. The code
  accepts \<^verbatim>\<open>[-]\<close>: \<^verbatim>\<open>isValidNumber\<close> checks for a digit after \<^verbatim>\<open>.\<close> and after \<^verbatim>\<open>e\<close>, and
  not after the sign.
\<close>

theorem minus_without_digit_accepted:
  "VerifyBytes (n + 20) Verify0 ''[-]'' = Some (True, None) \<and>
   VerifyBytes (n + 20) Verify0 ''[1.]'' = Some (False, Some ErrInvalidJSON) \<and>
   VerifyBytes (n + 20) Verify0 ''[1e]'' = Some (False, Some ErrInvalidJSON) \<and>
   VerifyBytes (n + 20) Verify0 ''[-1.5e+3]'' = Some (True, None)"
proof -
  have "VerifyBytes 20 Verify0 ''[-]'' = Some (True, None)"
    by code_simp
  moreover have "VerifyBytes 20 Verify0 ''[1.]'' = Some (False, Some ErrInvalidJSON)"
    by code_simp
  moreover have "VerifyBytes 20 Verify0 ''[1e]'' = Some (False, Some ErrInvalidJSON)"
    by code_simp
  moreover have "VerifyBytes 20 Verify0 ''[-1.5e+3]'' = Some (True, None)"
    by code_simp
  ultimately show ?thesis
    by (simp only: VerifyBytes_fuel_add)
qed


text \<open>
  C3, as stated: the 47-character string with maximum 45 yields the message with the
  prefix \<^verbatim>\<open>threat.\<close>. It does not: the prefix of the code is \<^verbatim>\<open>jtp.\<close>.
\<close>

theorem error_prefix_counterexample:
  "VerifyBytes 2 (only_string_limit 45) doc47 \<noteq>
     Some (False, Some ''threat.maxStringValueLengthReached.Max-[45]-Allowed.Found-[47]'')"
  by code_simp



text \<open>
  C3, amended: every error \<^verbatim>\<open>VerifyBytes\<close> returns is either the sentinel
  \<^verbatim>\<open>jtp.MalformedJSON\<close> or the string \<^verbatim>\<open>jtp.<label>.Max-[<max>]-Allowed.Found-[<found>]\<close>
  with one of the five labels and the configured maximum of that limit; the
  47-character string with maximum 45 and all other checks disabled yields
  \<^verbatim>\<open>(false, "jtp.maxStringValueLengthReached.Max-[45]-Allowed.Found-[47]")\<close>. With fuel
  of at least five times the length of the buffer plus seven, \<^verbatim>\<open>VerifyBytes\<close> returns.
\<close>

theorem error_messages:
  "(VerifyBytes n v json = Some (ok, Some e) \<longrightarrow> e = ErrInvalidJSON \<or> e \<in> limit_errors v) \<and>
   (5 * length json + 7 \<le> n \<longrightarrow> (\<exists>ok' err. VerifyBytes n v json = Some (ok', err))) \<and>
   limit_error label mx found =
     ''jtp.'' @ label @ ''.Max-['' @ fmt_d mx @ '']-Allowed.Found-['' @ fmt_d found @ '']'' \<and>
   ErrInvalidJSON = ''jtp.MalformedJSON'' \<and>
   VerifyBytes (k + 2) (only_string_limit 45) doc47 =
     Some (False, Some ''jtp.maxStringValueLengthReached.Max-[45]-Allowed.Found-[47]'')"
proof -
  have "e = ErrInvalidJSON \<or> e \<in> limit_errors v"
    if h: "VerifyBytes n v json = Some (ok, Some e)"
  proof -
    from h obtain j e0 d' where r: "isValidJSON n json 0 0 v = Some (j, ok, e0, d')"
      and e: "Some e = (if e0 = None \<and> ok = False then Some ErrInvalidJSON else e0)"
      by (auto simp: VerifyBytes_def split: option.splits)
    have "errok v e0"
      using r by (rule isValidJSON_errok)
    with e show ?thesis
      by (auto simp: errok_def split: if_splits)
  qed
  moreover have "VerifyBytes 2 (only_string_limit 45) doc47 =
      Some (False, Some ''jtp.maxStringValueLengthReached.Max-[45]-Allowed.Found-[47]'')"
    by code_simp
  then have "VerifyBytes (k + 2) (only_string_limit 45) doc47 =
      Some (False, Some ''jtp.maxStringValueLengthReached.Max-[45]-Allowed.Found-[47]'')"
    by (rule VerifyBytes_fuel_add)
  moreover have "ErrInvalidJSON = ''jtp.MalformedJSON''"
    by (simp add: ErrInvalidJSON_def)
  moreover have "limit_error label mx found =
     ''jtp.'' @ label @ ''.Max-['' @ fmt_d mx @ '']-Allowed.Found-['' @ fmt_d found @ '']''"
    by (simp add: limit_error_def)
  moreover have "\<exists>ok' err. VerifyBytes n v json = Some (ok', err)"
    if "5 * length json + 7 \<le> n"
    using that by (rule VerifyBytes_total)
  ultimately show ?thesis
    by blast
qed

theorem error_messages_witness:
  "''jtp.maxStringValueLengthReached.Max-[45]-Allowed.Found-[47]'' = ErrInvalidJSON \<or>
   ''jtp.maxStringValueLengthReached.Max-[45]-Allowed.Found-[47]''
     \<in> limit_errors (only_string_limit 45)"
proof -
  have h: "VerifyBytes 252 (only_string_limit 45) doc47 =
      Some (False, Some ''jtp.maxStringValueLengthReached.Max-[45]-Allowed.Found-[47]'')"
    by code_simp
  show ?thesis
    using error_messages [of 252 "only_string_limit 45" doc47 False
        "''jtp.maxStringValueLengthReached.Max-[45]-Allowed.Found-[47]''"] h
    by simp
qed

text \<open>
  C8, as stated: after any completed top-level validation, success or failure, the depth
  counter is back at its initial value. It is not after a failure: the validation of the
  buffer \<^verbatim>\<open>[\<close> fails and leaves the counter at 1.
\<close>

theorem depth_not_restored_counterexample:
  "isValidJSON 20 ''['' 0 0 Verify0 = Some (1, False, None, 1) \<and>
   VerifyBytes 20 Verify0 ''['' = Some (False, Some ErrInvalidJSON)"
  by code_simp

text \<open>
  C8, amended: each container validator decrements the depth counter exactly once, at its
  successful close. A successful \<^verbatim>\<open>validany\<close> returns the counter as it was given, a
  successful \<^verbatim>\<open>isValidArray\<close> or \<^verbatim>\<open>isValidObject\<close> (entered after the increment) one lower,
  so after a successful top-level validation the counter is back at 0. A failing
  validation does not decrement: it leaves the counter at the depth of the failure, which
  is never below the initial value. With fuel of at least five times the length of the
  buffer plus seven, the top-level validation completes.
\<close>

theorem depth_counter_balance:
  "(validany n data i d v = Some (j, True, e, d') \<longrightarrow> d' = d) \<and>
   (isValidArray n data i d v = Some (j, True, e, d') \<longrightarrow> d' = d - 1) \<and>
   (isValidObject n data i d v = Some (j, True, e, d') \<longrightarrow> d' = d - 1) \<and>
   (isValidJSON n data 0 0 v = Some (j, True, e, d') \<longrightarrow> d' = 0) \<and>
   (isValidJSON n data 0 0 v = Some (j, False, e, d') \<longrightarrow> 0 \<le> d') \<and>
   (5 * length data + 7 \<le> n \<longrightarrow> (\<exists>r. isValidJSON n data 0 0 v = Some r))"
  using validany_depth [of n data i d v j True e d']
    isValidArray_depth [of n data i d v j True e d']
    isValidObject_depth [of n data i d v j True e d']
    isValidJSON_depth [of n data 0 0 v j True e d']
    isValidJSON_depth [of n data 0 0 v j False e d']
    isValidJSON_total [of data n 0 0 v]
  by (simp add: depth_kept_def depth_closed_def del: split_paired_Ex)

theorem depth_counter_balance_witness:
  "isValidJSON 27 ''[[]]'' 0 0 Verify0 = Some (4, True, None, 0) \<and>
   isValidJSON 27 ''[[1'' 0 0 Verify0 = Some (3, False, None, 2) \<and>
   isValidArray 27 ''[[]]'' 1 1 Verify0 = Some (4, True, None, 0)"
proof -
  have a: "isValidJSON 27 ''[[]]'' 0 0 Verify0 = Some (4, True, None, 0)"
    by code_simp
  have b: "isValidJSON 27 ''[[1'' 0 0 Verify0 = Some (3, False, None, 2)"
    by code_simp
  have c: "isValidArray 27 ''[[]]'' 1 1 Verify0 = Some (4, True, None, 0)"
    by code_simp
  show ?thesis
    using depth_counter_balance [of 27 "''[[]]''" 1 1 Verify0 4 None 0] a b c by simp
qed

text \<open>
  C9. Let \<open>i\<close> be the position after the leading whitespace (space, tab, newline, carriage
  return). \<^verbatim>\<open>VerifyBytes\<close> accepts the buffer if and only if \<open>i\<close> is inside the buffer,
  \<^verbatim>\<open>validany\<close> consumes one value from \<open>i\<close> with \<open>ok\<close> and no error, and only whitespace
  follows to the end. When the scan of the value fails with \<open>ok = false\<close> and a \<^verbatim>\<open>nil\<close>
  error (or there is no value at all), \<^verbatim>\<open>VerifyBytes\<close> returns the sentinel
  \<^verbatim>\<open>ErrInvalidJSON\<close>; a non-nil error of the scan is returned unchanged, with \<open>false\<close>.
  With fuel of at least five times the length of the buffer plus seven, \<^verbatim>\<open>VerifyBytes\<close>
  returns.
\<close>

theorem top_level_driver:
  assumes i: "i = length (takeWhile is_ws json)"
  shows "(5 * length json + 7 \<le> n \<longrightarrow> (\<exists>ok' err. VerifyBytes n v json = Some (ok', err))) \<and>
         ((VerifyBytes n v json = Some (True, None) \<longleftrightarrow>
            i < length json \<and>
            (\<exists>j d'. validany n json i 0 v = Some (j, True, None, d') \<and>
                     (\<forall>c \<in> set (drop j json). is_ws c))) \<and>
         (i < length json \<and> validany n json i 0 v = Some (j, False, None, d') \<longrightarrow>
            VerifyBytes n v json = Some (False, Some ErrInvalidJSON)) \<and>
         (i < length json \<and> validany n json i 0 v = Some (j, ok, Some e, d') \<longrightarrow>
            VerifyBytes n v json = Some (False, Some e)) \<and>
         (\<not> i < length json \<longrightarrow> VerifyBytes n v json = Some (False, Some ErrInvalidJSON)))"
    (is "?returns \<and> ?driver")
proof -
  have returns: ?returns
    using VerifyBytes_total [of json n v] by blast
  have driver: ?driver
  proof (cases "i < length json")
    case False
    then show ?thesis
      by (simp add: VerifyBytes_def isValidJSON_top [OF i])
  next
    case True
    show ?thesis
    proof (cases "validany n json i 0 v")
      case None
      with True show ?thesis
        by (simp add: VerifyBytes_def isValidJSON_top [OF i])
    next
      case (Some x)
      obtain j1 ok1 e1 d1 where x: "x = (j1, ok1, e1, d1)"
        by (cases x) auto
      obtain j' where r: "isValidJSON_rest json j1 e1 d1 =
          (j', (\<forall>c \<in> set (drop j1 json). is_ws c), e1, d1)"
        using isValidJSON_rest_shape by blast
      from True Some x r show ?thesis
        by (auto simp: VerifyBytes_def isValidJSON_top [OF i])
    qed
  qed
  from returns driver show ?thesis
    by (rule conjI)
qed

theorem top_level_driver_witness:
  "VerifyBytes 40 Verify0 '' [1] '' = Some (True, None) \<and>
   VerifyBytes 40 Verify0 '' [1] x'' \<noteq> Some (True, None) \<and>
   VerifyBytes 40 Verify0 '' [1'' = Some (False, Some ErrInvalidJSON) \<and>
   VerifyBytes 257 (only_string_limit 45) ('' '' @ doc47) =
     Some (False, Some ''jtp.maxStringValueLengthReached.Max-[45]-Allowed.Found-[47]'')"
proof -
  have a: "(1::nat) = length (takeWhile is_ws '' [1] '')"
    by (simp add: is_ws_def)
  have b: "validany 40 '' [1] '' 1 0 Verify0 = Some (4, True, None, 0)"
    by code_simp
  have c: "(1::nat) = length (takeWhile is_ws '' [1] x'')"
    by (simp add: is_ws_def)
  have d: "validany 40 '' [1] x'' 1 0 Verify0 = Some (4, True, None, 0)"
    by code_simp
  have e: "(1::nat) = length (takeWhile is_ws '' [1'')"
    by (simp add: is_ws_def)
  have f: "validany 40 '' [1'' 1 0 Verify0 = Some (3, False, None, 1)"
    by code_simp
  have g: "(1::nat) = length (takeWhile is_ws ('' '' @ doc47))"
    by (simp add: is_ws_def doc47_def)
  have h: "validany 257 ('' '' @ doc47) 1 0 (only_string_limit 45) =
      Some (50, True, Some ''jtp.maxStringValueLengthReached.Max-[45]-Allowed.Found-[47]'', 0)"
    by code_simp
  have 1: "VerifyBytes 40 Verify0 '' [1] '' = Some (True, None)"
    using top_level_driver [OF a, where n = 40 and v = Verify0] b
    by (simp add: is_ws_def)
  have 2: "VerifyBytes 40 Verify0 '' [1] x'' \<noteq> Some (True, None)"
    using top_level_driver [OF c, where n = 40 and v = Verify0] d
    by (simp add: is_ws_def)
  have 3: "VerifyBytes 40 Verify0 '' [1'' = Some (False, Some ErrInvalidJSON)"
    using top_level_driver [OF e, where n = 40 and v = Verify0 and j = 3 and d' = 1] f
    by simp
  have 4: "VerifyBytes 257 (only_string_limit 45) ('' '' @ doc47) =
     Some (False, Some ''jtp.maxStringValueLengthReached.Max-[45]-Allowed.Found-[47]'')"
    using top_level_driver [OF g, where n = 257 and v = "only_string_limit 45" and j = 50
        and d' = 0 and ok = True
        and e = "''jtp.maxStringValueLengthReached.Max-[45]-Allowed.Found-[47]''"] h
    by (simp add: doc47_def)
  show ?thesis
    using 1 2 3 4 by blast
qed





text \<open>
  C6, as stated: the object entry counter increments after each member. It increments
  as soon as the key of a member is scanned, before the colon and the value: with the
  maximum 1, the buffer \<^verbatim>\<open>{"a":1,"b"\<close>, which holds one member and the key of a second,
  already fails with the entry-count error and found = 2 (with the counter incremented
  after each member it would hold one entry and be malformed).
\<close>

theorem entry_counted_at_key_counterexample:
  "VerifyBytes 20 (only_entry_limit 1) second_key_only =
     Some (False, Some ''jtp.maxObjectEntryCountReached.Max-[1]-Allowed.Found-[2]'')"
  by code_simp

text \<open>
  C6, amended. With the array element count enabled at maximum \<open>M\<close>, the array of \<open>M\<close>
  elements passes and the array of \<open>M + 1\<close> elements fails with the count error and
  found = \<open>M + 1\<close>; with the object entry count enabled at maximum \<open>M\<close>, the object of \<open>M\<close>
  members passes and the object of \<open>M + 1\<close> members fails with the count error and
  found = \<open>M + 1\<close>: failure is on strictly greater, never at equality. The object entry
  counter increments when the key of a member has been scanned, and the check follows at
  once, before the colon and the value are looked at.
\<close>

theorem count_boundaries:
  assumes n: "2 * M + 7 \<le> n"
  shows "(0 < M \<longrightarrow>
            VerifyBytes n (only_array_limit (int M)) (array_of_ones M) = Some (True, None)) \<and>
         VerifyBytes n (only_array_limit (int M)) (array_of_ones (Suc M)) =
           Some (False,
             Some (limit_error ''maxArrayElementCountReached'' (int M) (int M + 1))) \<and>
         (0 < M \<longrightarrow>
            VerifyBytes n (only_entry_limit (int M)) (object_of_members M) = Some (True, None)) \<and>
         VerifyBytes n (only_entry_limit (int M)) (object_of_members (Suc M)) =
           Some (False,
             Some (limit_error ''maxObjectEntryCountReached'' (int M) (int M + 1))) \<and>
         (isValidateString data (i + 1) = (i1, True) \<and> objectEntryCountEnabled v \<and>
          ObjectEntryCount v < c + 1 \<longrightarrow>
            isValidObject_key (Suc k) data i d v e c =
              Some (i1, False,
                Some (limit_error ''maxObjectEntryCountReached'' (ObjectEntryCount v) (c + 1)),
                d))"
proof -
  have a: "VerifyBytes n (only_array_limit (int M)) (array_of_ones M) = Some (True, None)"
    if "0 < M"
  proof -
    from that obtain r where M: "M = Suc r"
      by (cases M) auto
    show ?thesis
      unfolding M using n M by (intro array_of_ones_ok) simp_all
  qed
  have b: "VerifyBytes n (only_entry_limit (int M)) (object_of_members M) = Some (True, None)"
    if "0 < M"
  proof -
    from that obtain r where M: "M = Suc r"
      by (cases M) auto
    show ?thesis
      unfolding M using n M by (intro object_of_members_ok) simp_all
  qed
  have c: "VerifyBytes n (only_array_limit (int M)) (array_of_ones (Suc M)) =
      Some (False, Some (limit_error ''maxArrayElementCountReached'' (int M) (int M + 1)))"
    using n by (intro array_of_ones_too_many) simp
  have d: "VerifyBytes n (only_entry_limit (int M)) (object_of_members (Suc M)) =
      Some (False, Some (limit_error ''maxObjectEntryCountReached'' (int M) (int M + 1)))"
    using n by (intro object_of_members_too_many) simp
  show ?thesis
    using a b c d key_counted_first [of data i i1 v c k d e] by simp
qed

theorem count_boundaries_witness:
  "VerifyBytes 11 (only_array_limit 2) ''[1,1]'' = Some (True, None) \<and>
   VerifyBytes 11 (only_array_limit 2) ''[1,1,1]'' =
     Some (False, Some ''jtp.maxArrayElementCountReached.Max-[2]-Allowed.Found-[3]'') \<and>
   VerifyBytes 11 (only_entry_limit 2) (object_of_members 2) = Some (True, None) \<and>
   VerifyBytes 11 (only_entry_limit 2) (object_of_members 3) =
     Some (False, Some ''jtp.maxObjectEntryCountReached.Max-[2]-Allowed.Found-[3]'')"
proof -
  have a: "array_of_ones 2 = ''[1,1]''" "array_of_ones (Suc 2) = ''[1,1,1]''"
    by (simp_all add: array_of_ones_def numeral_2_eq_2)
  have b: "limit_error ''maxArrayElementCountReached'' (int 2) (int 2 + 1) =
      ''jtp.maxArrayElementCountReached.Max-[2]-Allowed.Found-[3]''"
    "limit_error ''maxObjectEntryCountReached'' (int 2) (int 2 + 1) =
      ''jtp.maxObjectEntryCountReached.Max-[2]-Allowed.Found-[3]''"
    by code_simp+
  have c: "object_of_members (Suc 2) = object_of_members 3"
    by (simp add: numeral_3_eq_3)
  show ?thesis
    using count_boundaries [of 2 11] a b c by simp
qed

end
